theory Spec2Isabelle
  imports Main "HOL-Library.FSet"
begin

section \<open>Strings\<close>

text \<open>
  A Python \<open>str\<close> is modelled as a \<open>string\<close> whose characters are the code points
  below 256, one \<open>char\<close> per code point, so that \<open>length\<close> is Python's \<open>len\<close>.
\<close>

definition isspace :: "char \<Rightarrow> bool" where
  \<comment> \<open>\<open>str.isspace\<close> on one character: TAB, LF, VT, FF, CR, FS, GS, RS, US, SPACE, NEL, NBSP.\<close>
  "isspace c = (of_char c \<in> {9, 10, 11, 12, 13, 28, 29, 30, 31, 32, 133, 160 :: nat})"

fun split_from :: "string \<Rightarrow> string \<Rightarrow> string list" where
  \<comment> \<open>the scan of \<open>str.split()\<close>: the first argument is the word being read.\<close>
  "split_from cur [] = (if cur = [] then [] else [cur])"
| "split_from cur (c # cs) =
     (if isspace c then (if cur = [] then split_from [] cs else cur # split_from [] cs)
      else split_from (cur @ [c]) cs)"

definition split :: "string \<Rightarrow> string list" where
  \<comment> \<open>\<open>text.split()\<close>: the maximal runs of non-whitespace characters.\<close>
  "split str = split_from [] str"

fun join :: "string \<Rightarrow> string list \<Rightarrow> string" where
  \<comment> \<open>\<open>sep.join(words)\<close>\<close>
  "join sep [] = []"
| "join sep [w] = w"
| "join sep (w # ws) = w @ sep @ join sep ws"

section \<open>Double-precision arithmetic\<close>

text \<open>
  The token estimate of \<open>_chunk_text\<close> and the 0.7 threshold of \<open>extract_clean_text\<close> are
  computed in IEEE 754 binary64. A non-negative double that is a multiple of \<open>2^-52\<close> is
  represented by the natural number \<open>d * 2^52\<close>; this covers zero and every double from 1.0
  upwards, hence every value the two functions compute apart from the constants \<open>0.75\<close> and
  \<open>0.7\<close>, which are multiples of \<open>2^-52\<close> too. Overflow to infinity (beyond \<open>2^1024\<close>) is
  not modelled.
\<close>

type_synonym double = nat

fun bit_length :: "nat \<Rightarrow> nat" where
  "bit_length n = (if n = 0 then 0 else 1 + bit_length (n div 2))"

declare bit_length.simps [simp del]

definition round_double :: "nat \<Rightarrow> nat \<Rightarrow> double" where
  \<comment> \<open>the quotient \<open>N / D\<close> (in units of \<open>2^-52\<close>) rounded to 53 significant bits, ties to even\<close>
  "round_double N D =
     (let s = bit_length (N div D) - 53;
          u = D * 2 ^ s;
          q = N div u;
          r = N mod u
      in (if u < 2 * r \<or> (2 * r = u \<and> odd q) then q + 1 else q) * 2 ^ s)"

definition double_of_int :: "nat \<Rightarrow> double" where
  \<comment> \<open>the conversion of a non-negative \<open>int\<close> operand to \<open>float\<close>\<close>
  "double_of_int n = round_double (n * 2 ^ 52) 1"

definition fadd :: "double \<Rightarrow> double \<Rightarrow> double" where
  "fadd a b = round_double (a + b) 1"

definition fmul :: "double \<Rightarrow> double \<Rightarrow> double" where
  "fmul a b = round_double (a * b) (2 ^ 52)"

definition fdiv :: "double \<Rightarrow> double \<Rightarrow> double" where
  "fdiv a b = round_double (a * 2 ^ 52) b"

definition fgt_int :: "double \<Rightarrow> int \<Rightarrow> bool" where
  \<comment> \<open>\<open>a > m\<close> for a float \<open>a\<close> and an int \<open>m\<close>: Python compares the exact values\<close>
  "fgt_int a m = (m * 2 ^ 52 < int a)"

definition int_gt_double :: "nat \<Rightarrow> double \<Rightarrow> bool" where
  \<comment> \<open>\<open>n > a\<close> for an int \<open>n\<close> and a float \<open>a\<close>\<close>
  "int_gt_double n a = (a < n * 2 ^ 52)"

definition d0_75 :: double where
  \<comment> \<open>the literal \<open>0.75\<close>\<close>
  "d0_75 = 3 * 2 ^ 50"

definition d0_7 :: double where
  \<comment> \<open>the literal \<open>0.7\<close>, the double \<open>0x3FE6666666666666\<close>\<close>
  "d0_7 = 3152519739159347"

section \<open>Content packager: \<open>ModuleExtractor._chunk_text\<close>\<close>

definition word_tokens :: "string \<Rightarrow> double" where
  \<comment> \<open>\<open>len(word) / 0.75\<close>\<close>
  "word_tokens word = fdiv (double_of_int (length word)) d0_75"

fun chunk_loop ::
  "int \<Rightarrow> string list \<Rightarrow> string list \<Rightarrow> string list \<Rightarrow> double
   \<Rightarrow> string list \<times> string list \<times> double" where
  \<comment> \<open>the \<open>for word in words\<close> loop over the state \<open>(chunks, current_chunk, current_length)\<close>\<close>
  "chunk_loop max_tokens [] chunks current_chunk current_length =
     (chunks, current_chunk, current_length)"
| "chunk_loop max_tokens (word # words) chunks current_chunk current_length =
     (if fgt_int (fadd current_length (word_tokens word)) max_tokens \<and> current_chunk \<noteq> []
      then chunk_loop max_tokens words (chunks @ [join '' '' current_chunk]) [word]
             (word_tokens word)
      else chunk_loop max_tokens words chunks (current_chunk @ [word])
             (fadd current_length (word_tokens word)))"

definition chunk_text :: "string \<Rightarrow> int \<Rightarrow> string list" where
  "chunk_text str max_tokens =
     (case chunk_loop max_tokens (split str) [] [] 0 of
        (chunks, current_chunk, current_length) \<Rightarrow>
          if current_chunk \<noteq> [] then chunks @ [join '' '' current_chunk] else chunks)"

text \<open>
  The words of a chunk, its token count as the loop accumulates it, and the loop over word
  groups instead of joined strings; used to state and prove the properties of \<open>chunk_text\<close>.
\<close>

definition proper_word :: "string \<Rightarrow> bool" where
  "proper_word w = (w \<noteq> [] \<and> (\<forall>c\<in>set w. \<not> isspace c))"


definition token_sum :: "string list \<Rightarrow> double" where
  "token_sum ws = foldl fadd 0 (map word_tokens ws)"

fun chunk_groups ::
  "int \<Rightarrow> string list \<Rightarrow> string list list \<Rightarrow> string list \<Rightarrow> double
   \<Rightarrow> string list list \<times> string list \<times> double" where
  "chunk_groups max_tokens [] groups current_chunk current_length =
     (groups, current_chunk, current_length)"
| "chunk_groups max_tokens (word # words) groups current_chunk current_length =
     (if fgt_int (fadd current_length (word_tokens word)) max_tokens \<and> current_chunk \<noteq> []
      then chunk_groups max_tokens words (groups @ [current_chunk]) [word] (word_tokens word)
      else chunk_groups max_tokens words groups (current_chunk @ [word])
             (fadd current_length (word_tokens word)))"

definition chunk_words :: "string \<Rightarrow> int \<Rightarrow> string list list" where
  "chunk_words s max_tokens =
     (case chunk_groups max_tokens (split s) [] [] 0 of
        (groups, current_chunk, current_length) \<Rightarrow>
          if current_chunk \<noteq> [] then groups @ [current_chunk] else groups)"


definition within_limit :: "int \<Rightarrow> string list \<Rightarrow> bool" where
  "within_limit m g = (length g = 1 \<or> \<not> fgt_int (token_sum g) m)"


section \<open>URL policy: \<open>Crawler.is_valid_url\<close> and \<open>Crawler.prioritize_urls\<close>\<close>

definition lower_char :: "char \<Rightarrow> char" where
  \<comment> \<open>\<open>str.lower\<close> on one code point below 256: \<open>A-Z\<close> and the capital letters of Latin-1\<close>
  "lower_char c =
     (let n = of_char c :: nat
      in if (65 \<le> n \<and> n \<le> 90) \<or> (192 \<le> n \<and> n \<le> 222 \<and> n \<noteq> 215)
         then char_of (n + 32) else c)"

definition lower :: "string \<Rightarrow> string" where
  "lower s = map lower_char s"

definition endswith :: "string \<Rightarrow> string \<Rightarrow> bool" where
  \<comment> \<open>\<open>s.endswith(ext)\<close>\<close>
  "endswith s ext = (length ext \<le> length s \<and> drop (length s - length ext) s = ext)"

definition startswith :: "string \<Rightarrow> string \<Rightarrow> bool" where
  \<comment> \<open>\<open>s.startswith(prefix)\<close>\<close>
  "startswith s pre = (take (length pre) s = pre)"

fun contains :: "string \<Rightarrow> string \<Rightarrow> bool" where
  \<comment> \<open>\<open>pattern in s\<close>\<close>
  "contains [] pattern = (pattern = [])"
| "contains (c # cs) pattern = (startswith (c # cs) pattern \<or> contains cs pattern)"

definition skip_extensions :: "string list" where
  "skip_extensions =
     [''.pdf'', ''.jpg'', ''.png'', ''.gif'', ''.jpeg'', ''.svg'', ''.mp4'', ''.zip'', ''.css'',
      ''.js'']"

definition skip_patterns :: "string list" where
  "skip_patterns =
     [''/cdn-cgi/'', ''/wp-content/'', ''/wp-includes/'', ''/static/'', ''/assets/'']"

text \<open>
  \<open>urlparse(url).netloc\<close> is library code and is a parameter of the model: \<open>netloc url\<close> is
  \<open>None\<close> where \<open>urlparse\<close> raises (\<open>ValueError\<close>, for a malformed bracketed host) and
  the network location otherwise. The result of \<open>is_valid_url\<close> is \<open>None\<close> where the call
  raises, since both URLs are parsed before any test but the first.
\<close>

definition is_valid_url :: "(string \<Rightarrow> string option) \<Rightarrow> string \<Rightarrow> string \<Rightarrow> bool option" where
  "is_valid_url netloc url base_url =
     (if url = [] then Some False
      else case netloc base_url of
        None \<Rightarrow> None
      | Some base_domain \<Rightarrow>
          (case netloc url of
             None \<Rightarrow> None
           | Some url_domain \<Rightarrow>
               if list_ex (\<lambda>ext. endswith (lower url) ext) skip_extensions then Some False
               else if list_ex (\<lambda>pattern. contains url pattern) skip_patterns then Some False
               else Some (url_domain = base_domain
                          \<or> endswith url_domain (''.'' @ base_domain))))"

text \<open>
  The network location of a URL of the common form \<open>scheme://host/path?query#fragment\<close>, as
  \<open>urllib.parse.urlsplit\<close> finds it: after the scheme (letters, digits, \<open>+\<close>, \<open>-\<close>, \<open>.\<close>
  up to the first colon, starting with a letter) and the two slashes, the text up to the
  first \<open>/\<close>, \<open>?\<close> or \<open>#\<close>. The validation of bracketed hosts and the removal of
  control characters are left out; the model is used to evaluate \<open>is_valid_url\<close> on URLs
  without brackets and control characters.
\<close>

definition is_scheme_char :: "char \<Rightarrow> bool" where
  "is_scheme_char c =
     (let n = of_char c :: nat
      in (97 \<le> n \<and> n \<le> 122) \<or> (65 \<le> n \<and> n \<le> 90) \<or> (48 \<le> n \<and> n \<le> 57)
         \<or> c = CHR ''+'' \<or> c = CHR ''-'' \<or> c = CHR ''.'')"

definition is_ascii_alpha :: "char \<Rightarrow> bool" where
  "is_ascii_alpha c =
     (let n = of_char c :: nat in (97 \<le> n \<and> n \<le> 122) \<or> (65 \<le> n \<and> n \<le> 90))"

definition strip_scheme :: "string \<Rightarrow> string" where
  \<comment> \<open>the URL after its scheme and colon, or the whole URL when it has no scheme\<close>
  "strip_scheme url =
     (let pre = takeWhile (\<lambda>c. c \<noteq> CHR '':'') url
      in if pre \<noteq> [] \<and> length pre < length url \<and> is_ascii_alpha (hd url)
            \<and> list_all is_scheme_char pre
         then drop (length pre + 1) url else url)"

definition simple_netloc :: "string \<Rightarrow> string option" where
  "simple_netloc url =
     (let rest = strip_scheme url
      in if take 2 rest = ''//''
         then Some (takeWhile (\<lambda>c. c \<noteq> CHR ''/'' \<and> c \<noteq> CHR ''?'' \<and> c \<noteq> CHR ''#'')
                      (drop 2 rest))
         else Some [])"

definition documentation_patterns :: "string list" where
  "documentation_patterns =
     [''article'', ''doc'', ''help'', ''guide'', ''faq'', ''tutorial'', ''support'', ''manual'',
      ''reference'', ''category'', ''section'', ''topic'', ''content'']"

definition get_url_priority :: "string \<Rightarrow> nat" where
  "get_url_priority url =
     (if list_ex (\<lambda>pattern. contains (lower url) pattern) documentation_patterns then 0
      else count_list url CHR ''/'')"

definition prioritize_urls :: "string list \<Rightarrow> string list" where
  \<comment> \<open>\<open>sorted(url_list, key=get_url_priority)\<close>: a stable sort\<close>
  "prioritize_urls url_list = sort_key get_url_priority url_list"

section \<open>Structure extractor\<close>

text \<open>
  A parsed page region is a tree of elements (tag name, attributes, children) and text
  nodes, as BeautifulSoup holds it.
\<close>

datatype html = Text string | Element string "(string \<times> string) list" "html list"

fun descendants :: "html \<Rightarrow> html list" where
  \<comment> \<open>the nodes below an element in document order, the element itself excluded\<close>
  "descendants (Text s) = []"
| "descendants (Element name attrs children) =
     concat (map (\<lambda>c. c # descendants c) children)"

fun is_tag :: "string \<Rightarrow> html \<Rightarrow> bool" where
  "is_tag name (Text s) = False"
| "is_tag name (Element n attrs children) = (n = name)"

definition find_all :: "html \<Rightarrow> string \<Rightarrow> html list" where
  \<comment> \<open>\<open>element.find_all(name)\<close>\<close>
  "find_all element name = filter (is_tag name) (descendants element)"

fun get_text :: "html \<Rightarrow> string" where
  \<comment> \<open>\<open>element.get_text()\<close>: the text nodes below the element, concatenated\<close>
  "get_text (Text s) = s"
| "get_text (Element name attrs children) = concat (map get_text children)"

fun get_attr :: "html \<Rightarrow> string \<Rightarrow> string \<Rightarrow> string" where
  \<comment> \<open>\<open>element.get(key, default)\<close>\<close>
  "get_attr (Text s) key dflt = dflt"
| "get_attr (Element name attrs children) key dflt =
     (case map_of attrs key of None \<Rightarrow> dflt | Some v \<Rightarrow> v)"

definition strip :: "string \<Rightarrow> string" where
  \<comment> \<open>\<open>s.strip()\<close>\<close>
  "strip s = rev (dropWhile isspace (rev (dropWhile isspace s)))"

record heading =
  heading_level :: nat
  heading_text :: string
  heading_id :: string

definition make_heading :: "nat \<Rightarrow> html \<Rightarrow> heading" where
  "make_heading i h =
     \<lparr>heading_level = i, heading_text = strip (get_text h), heading_id = get_attr h ''id'' []\<rparr>"

definition heading_tag :: "nat \<Rightarrow> string" where
  \<comment> \<open>\<open>f'h{i}'\<close> for \<open>i\<close> from 1 to 6\<close>
  "heading_tag i = [CHR ''h'', ''0123456789'' ! i]"

definition extract_headings :: "html \<Rightarrow> heading list" where
  \<comment> \<open>the \<open>headings\<close> entry of \<open>extract_document_structure\<close>: the loop over the levels 1 to 6
      around the loop over \<open>find_all\<close>. The lists, tables and code blocks of the structure
      are not modelled.\<close>
  "extract_headings element =
     concat (map (\<lambda>i. map (make_heading i) (find_all element (heading_tag i))) [1..<7])"

definition is_heading_of :: "html \<Rightarrow> nat option" where
  \<comment> \<open>the level of a node that is a heading tag \<open>h1\<close> to \<open>h6\<close>\<close>
  "is_heading_of h = find (\<lambda>i. is_tag (heading_tag i) h) [1..<7]"

definition headings_in_document_order :: "html \<Rightarrow> heading list" where
  \<comment> \<open>the headings of all six levels in the order they appear in the document: the listing
      that the specification describes, for comparison with \<open>extract_headings\<close>\<close>
  "headings_in_document_order element =
     concat (map (\<lambda>h. case is_heading_of h of None \<Rightarrow> [] | Some i \<Rightarrow> [make_heading i h])
               (descendants element))"

section \<open>Page extraction: \<open>Crawler.extract_clean_text\<close>\<close>

definition trafilatura_preferred :: "string \<Rightarrow> string \<Rightarrow> bool" where
  \<comment> \<open>\<open>traf_text and len(traf_text) > len(enhanced_text) * 0.7\<close>\<close>
  "trafilatura_preferred traf_text enhanced_text =
     (traf_text \<noteq> []
      \<and> int_gt_double (length traf_text) (fmul (double_of_int (length enhanced_text)) d0_7))"

definition choose_text :: "string \<Rightarrow> string option \<Rightarrow> string" where
  \<comment> \<open>lines 86 to 96: the text returned once \<open>enhanced_text\<close> is rendered. The second
      argument is what \<open>trafilatura.extract\<close> returned, \<open>None\<close> when the download gave
      nothing, the extraction gave \<open>None\<close> or either call raised.\<close>
  "choose_text enhanced_text traf =
     (case traf of
        None \<Rightarrow> enhanced_text
      | Some traf_text \<Rightarrow>
          if trafilatura_preferred traf_text enhanced_text then traf_text else enhanced_text)"

section \<open>LLM module extractor: \<open>ModuleExtractor._extract_module_with_submodules\<close>\<close>

datatype json =
  JNull | JBool bool | JNumber string | JString string | JArray "json list"
  | JObject "(string \<times> json) list"

fun find_char :: "string \<Rightarrow> char \<Rightarrow> int" where
  \<comment> \<open>\<open>s.find(c)\<close>: the index of the first \<open>c\<close>, or \<open>-1\<close>\<close>
  "find_char [] c = -1"
| "find_char (x # xs) c =
     (if x = c then 0 else (let i = find_char xs c in if i < 0 then -1 else i + 1))"

definition rfind_char :: "string \<Rightarrow> char \<Rightarrow> int" where
  \<comment> \<open>\<open>s.rfind(c)\<close>: the index of the last \<open>c\<close>, or \<open>-1\<close>\<close>
  "rfind_char s c =
     (let i = find_char (rev s) c in if i < 0 then -1 else int (length s) - 1 - i)"

definition slice :: "string \<Rightarrow> int \<Rightarrow> int \<Rightarrow> string" where
  \<comment> \<open>\<open>s[b:e]\<close> for \<open>0 \<le> b \<le> e\<close>\<close>
  "slice s b e = take (nat (e - b)) (drop (nat b) s)"

definition json_substring :: "string \<Rightarrow> string" where
  \<comment> \<open>\<open>result_text[json_start:json_end]\<close>: from the first \<open>{\<close> through the last \<open>}\<close>\<close>
  "json_substring result_text =
     slice result_text (find_char result_text CHR ''{'') (rfind_char result_text CHR ''}'' + 1)"

definition placeholder_module :: "string \<Rightarrow> json" where
  "placeholder_module module_title =
     JObject [(''module'', JString module_title),
              (''Description'', JString ''No description available''),
              (''Submodules'', JObject [])]"

text \<open>
  The completion call and \<open>json.loads\<close> are library code. The response is given by the
  outcome of \<open>self.client.chat.completions.create\<close>: \<open>None\<close> when the call raises (outside
  the \<open>try\<close>, so that the exception leaves the function), \<open>Some content\<close> otherwise, where
  \<open>content\<close> is \<open>response.choices[0].message.content\<close>, \<open>None\<close> when it is absent.
  \<open>loads json_str\<close> is \<open>None\<close> when \<open>json.loads\<close> raises. The result of the function is
  \<open>None\<close> when it raises.
\<close>

definition extract_module_with_submodules ::
  "(string \<Rightarrow> json option) \<Rightarrow> string \<Rightarrow> string option option \<Rightarrow> json option" where
  "extract_module_with_submodules loads module_title response =
     (case response of
        None \<Rightarrow> None
      | Some None \<Rightarrow> Some (placeholder_module module_title)
      | Some (Some content) \<Rightarrow>
          (let result_text = strip content;
               json_start = find_char result_text CHR ''{'';
               json_end = rfind_char result_text CHR ''}'' + 1
           in if json_start \<ge> 0 \<and> json_end > json_start
              then (case loads (slice result_text json_start json_end) of
                      Some module \<Rightarrow> Some module
                    | None \<Rightarrow> Some (placeholder_module module_title))
              else Some (placeholder_module module_title)))"

fun module_results ::
  "(string \<Rightarrow> json option) \<Rightarrow> string \<Rightarrow> string option option list \<Rightarrow> json list" where
  \<comment> \<open>the loop of \<open>extract_modules\<close> over the chunks of one module, given the outcome of the
      completion call for each chunk: a chunk whose extraction raises is logged and skipped\<close>
  "module_results loads module_title [] = []"
| "module_results loads module_title (response # responses) =
     (case extract_module_with_submodules loads module_title response of
        None \<Rightarrow> module_results loads module_title responses
      | Some chunk_result \<Rightarrow> chunk_result # module_results loads module_title responses)"

definition has_bracket_pair :: "string \<Rightarrow> bool" where
  \<comment> \<open>the text holds a \<open>{\<close> with a \<open>}\<close> somewhere after it\<close>
  "has_bracket_pair s = (CHR ''}'' \<in> set (dropWhile (\<lambda>c. c \<noteq> CHR ''{'') s))"

text \<open>
  What \<open>extract_clean_text\<close> reads from a fetched page. \<open>soup.title\<close> may be absent (the
  title is then \<open>Untitled\<close>), or present without a single string (then \<open>title.strip()\<close>
  raises). Each later stage is \<open>None\<close> when it raises: \<open>extract_metadata\<close>, the main
  content region with its structure, the structured render (\<open>html2text\<close> is library code).
  The metadata is kept abstract.
\<close>

datatype title_tag = NoTitle | TitleWithoutString | TitleString string

record 'm page =
  page_title :: title_tag
  page_metadata :: "'m option"
  page_main :: "html option"
  page_enhanced :: "string option"
  page_traf :: "string option"

section \<open>Crawl engine\<close>

text \<open>
  The network and the URL library are parameters of the crawl: \<open>fetch_page url\<close> is the
  page that \<open>extract_clean_text\<close> gets (\<open>None\<close> when \<open>requests.get\<close> raises),
  \<open>fetch_anchors url\<close> the \<open>href\<close> and stripped text of each \<open>a\<close> tag with an \<open>href\<close> that
  \<open>get_links\<close> finds in document order (\<open>None\<close> when the request raises), \<open>urljoin\<close> and
  \<open>netloc\<close> the functions of \<open>urllib.parse\<close> (\<open>None\<close> when they raise).
\<close>

record 'm world =
  netloc :: "string \<Rightarrow> string option"
  urljoin :: "string \<Rightarrow> string \<Rightarrow> string option"
  fetch_page :: "string \<Rightarrow> 'm page option"
  fetch_anchors :: "string \<Rightarrow> (string \<times> string) list option"

record 'm crawler =
  max_pages :: int
  max_depth :: int
  visited_urls :: "string fset"
  queue :: "(string \<times> nat) list"
  content_map :: "string \<rightharpoonup> string"
  url_hierarchy :: "string \<rightharpoonup> string list"
  url_titles :: "string \<rightharpoonup> string"
  url_depths :: "string \<rightharpoonup> nat"
  url_metadata :: "string \<rightharpoonup> 'm"
  url_structure :: "string \<rightharpoonup> heading list"

definition extract_clean_text :: "'m world \<Rightarrow> 'm crawler \<Rightarrow> string \<Rightarrow> 'm crawler \<times> string" where
  \<comment> \<open>the crawler after the call and the text returned; every exception ends in
      \<open>return ""\<close> with the entries stored so far\<close>
  "extract_clean_text w c url =
     (case fetch_page w url of
        None \<Rightarrow> (c, [])
      | Some pg \<Rightarrow>
          (case (case page_title pg of
                   NoTitle \<Rightarrow> Some ''Untitled''
                 | TitleWithoutString \<Rightarrow> None
                 | TitleString s \<Rightarrow> Some s) of
             None \<Rightarrow> (c, [])
           | Some title \<Rightarrow>
               (let c1 = c\<lparr>url_titles := (url_titles c)(url \<mapsto> strip title)\<rparr>
                in case page_metadata pg of
                     None \<Rightarrow> (c1, [])
                   | Some metadata \<Rightarrow>
                       (let c2 = c1\<lparr>url_metadata := (url_metadata c1)(url \<mapsto> metadata)\<rparr>
                        in case page_main pg of
                             None \<Rightarrow> (c2, [])
                           | Some element \<Rightarrow>
                               (let c3 = c2\<lparr>url_structure :=
                                             (url_structure c2)(url \<mapsto> extract_headings element)\<rparr>
                                in case page_enhanced pg of
                                     None \<Rightarrow> (c3, [])
                                   | Some enhanced_text \<Rightarrow>
                                       (c3, choose_text enhanced_text (page_traf pg)))))))"

fun strip_fragment :: "string \<Rightarrow> string" where
  \<comment> \<open>\<open>re.sub(r'#.*$', '', full_url)\<close>: \<open>.\<close> matches no newline and \<open>$\<close> matches at the end
      of the string or before its final newline\<close>
  "strip_fragment [] = []"
| "strip_fragment (c # cs) =
     (if c = CHR ''#'' \<and> CHR 0x0A \<notin> set cs then []
      else if c = CHR ''#'' \<and> cs \<noteq> [] \<and> last cs = CHR 0x0A \<and> CHR 0x0A \<notin> set (butlast cs)
      then [CHR 0x0A]
      else c # strip_fragment cs)"

definition record_link :: "'m crawler \<Rightarrow> string \<Rightarrow> string \<Rightarrow> nat \<Rightarrow> string \<Rightarrow> 'm crawler" where
  \<comment> \<open>lines 307 to 316: the hierarchy edge, the depth and the provisional title of a link\<close>
  "record_link c url full_url current_depth link_text =
     (let c1 = c\<lparr>url_hierarchy := (url_hierarchy c)
                  (url \<mapsto> (case url_hierarchy c url of None \<Rightarrow> [] | Some l \<Rightarrow> l) @ [full_url])\<rparr>;
          c2 = c1\<lparr>url_depths := (url_depths c1)(full_url \<mapsto> current_depth + 1)\<rparr>
      in if link_text \<noteq> [] \<and> url_titles c2 full_url = None
         then c2\<lparr>url_titles := (url_titles c2)(full_url \<mapsto> link_text)\<rparr>
         else c2)"

fun links_loop ::
  "'m world \<Rightarrow> string \<Rightarrow> nat \<Rightarrow> (string \<times> string) list \<Rightarrow> 'm crawler \<Rightarrow> string list
   \<Rightarrow> 'm crawler \<times> string list" where
  \<comment> \<open>the loop of \<open>get_links\<close> over the anchors; an exception of \<open>urljoin\<close> or \<open>is_valid_url\<close>
      ends the loop with \<open>return []\<close> and keeps what the earlier anchors stored\<close>
  "links_loop w url current_depth [] c links = (c, links)"
| "links_loop w url current_depth ((href, link_text) # anchors) c links =
     (if href = [] \<or> startswith href ''javascript:'' \<or> href = ''#''
      then links_loop w url current_depth anchors c links
      else case urljoin w url href of
        None \<Rightarrow> (c, [])
      | Some joined \<Rightarrow>
          (let full_url = strip_fragment joined
           in case is_valid_url (netloc w) full_url url of
                None \<Rightarrow> (c, [])
              | Some valid \<Rightarrow>
                  if valid \<and> full_url |\<notin>| visited_urls c
                  then links_loop w url current_depth anchors
                         (record_link c url full_url current_depth link_text)
                         (links @ [full_url])
                  else links_loop w url current_depth anchors c links))"

definition get_links :: "'m world \<Rightarrow> 'm crawler \<Rightarrow> string \<Rightarrow> nat \<Rightarrow> 'm crawler \<times> string list" where
  "get_links w c url current_depth =
     (if int current_depth \<ge> max_depth c then (c, [])
      else case fetch_anchors w url of
        None \<Rightarrow> (c, [])
      | Some anchors \<Rightarrow> links_loop w url current_depth anchors c [])"

fun enqueue_links :: "'m crawler \<Rightarrow> string list \<Rightarrow> nat \<Rightarrow> 'm crawler" where
  \<comment> \<open>the loop over \<open>prioritized_links\<close>\<close>
  "enqueue_links c [] current_depth = c"
| "enqueue_links c (link # links) current_depth =
     (if link |\<notin>| visited_urls c \<and> link \<notin> set (map fst (queue c))
      then enqueue_links (c\<lparr>queue := queue c @ [(link, current_depth + 1)]\<rparr>) links current_depth
      else enqueue_links c links current_depth)"

definition store_content :: "'m crawler \<Rightarrow> string \<Rightarrow> string \<Rightarrow> 'm crawler" where
  \<comment> \<open>\<open>if content.strip(): self.content_map[current_url] = content\<close>\<close>
  "store_content c url content =
     (if strip content \<noteq> [] then c\<lparr>content_map := (content_map c)(url \<mapsto> content)\<rparr> else c)"

definition crawl_step :: "'m world \<Rightarrow> 'm crawler \<Rightarrow> 'm crawler" where
  \<comment> \<open>one iteration of the \<open>while\<close> loop of \<open>crawl\<close>, entered with a non-empty queue\<close>
  "crawl_step w c =
     (case queue c of
        [] \<Rightarrow> c
      | (current_url, current_depth) # rest \<Rightarrow>
          (let c1 = c\<lparr>queue := rest\<rparr>
           in if current_url |\<in>| visited_urls c1 then c1
              else
                (let c2 = c1\<lparr>visited_urls := finsert current_url (visited_urls c1)\<rparr>
                 in case extract_clean_text w c2 current_url of
                      (c3, content) \<Rightarrow>
                        (case get_links w (store_content c3 current_url content) current_url
                                current_depth of
                           (c5, links) \<Rightarrow>
                             if int current_depth < max_depth c5
                             then enqueue_links c5 (prioritize_urls links) current_depth
                             else c5))))"

definition crawl_continues :: "'m crawler \<Rightarrow> bool" where
  \<comment> \<open>the loop condition \<open>self.queue and len(self.visited_urls) < self.max_pages\<close>\<close>
  "crawl_continues c = (queue c \<noteq> [] \<and> int (fcard (visited_urls c)) < max_pages c)"

definition crawl_init :: "'m crawler \<Rightarrow> string \<Rightarrow> 'm crawler" where
  \<comment> \<open>the reset of the state at the start of \<open>crawl\<close>\<close>
  "crawl_init c start_url =
     c\<lparr>visited_urls := {||}, queue := [(start_url, 0)], content_map := Map.empty,
       url_hierarchy := Map.empty, url_titles := Map.empty,
       url_depths := [start_url \<mapsto> 0], url_metadata := Map.empty,
       url_structure := Map.empty\<rparr>"

definition crawl_iteration :: "'m world \<Rightarrow> 'm crawler \<Rightarrow> 'm crawler" where
  \<comment> \<open>the state after one more test of the loop condition: \<open>(crawl_iteration w ^^ n) c\<close> is
      the state of the loop started in \<open>c\<close> after \<open>n\<close> iterations, or its final state if it
      has stopped before\<close>
  "crawl_iteration w c = (if crawl_continues c then crawl_step w c else c)"

definition crawl_order :: "(('m world \<times> 'm crawler) \<times> ('m world \<times> 'm crawler)) set" where
  \<comment> \<open>the pages still allowed by the budget, then the length of the queue\<close>
  "crawl_order =
     measures [\<lambda>(w, c). nat (max_pages c - int (fcard (visited_urls c))),
               \<lambda>(w, c). length (queue c)]"

definition linked_urls :: "'m crawler \<Rightarrow> string set" where
  \<comment> \<open>the URLs recorded as children in the hierarchy\<close>
  "linked_urls c = (\<Union>l \<in> ran (url_hierarchy c). set l)"

definition keys_accounted :: "string \<Rightarrow> 'm crawler \<Rightarrow> bool" where
  \<comment> \<open>every key of the maps is accounted for: visited, or the start URL, or a recorded link\<close>
  "keys_accounted start_url c =
     (dom (content_map c) \<subseteq> fset (visited_urls c)
      \<and> dom (url_metadata c) \<subseteq> fset (visited_urls c)
      \<and> dom (url_structure c) \<subseteq> fset (visited_urls c)
      \<and> dom (url_titles c) \<subseteq> fset (visited_urls c) \<union> linked_urls c
      \<and> dom (url_depths c) \<subseteq> insert start_url (fset (visited_urls c) \<union> linked_urls c))"

definition new_crawler :: "int \<Rightarrow> int \<Rightarrow> 'm crawler" where
  \<comment> \<open>\<open>Crawler(max_pages, delay, max_depth)\<close>; the delay has no part in the model\<close>
  "new_crawler pages depth =
     \<lparr>max_pages = pages, max_depth = depth, visited_urls = {||}, queue = [],
      content_map = Map.empty, url_hierarchy = Map.empty, url_titles = Map.empty,
      url_depths = Map.empty, url_metadata = Map.empty, url_structure = Map.empty\<rparr>"

text \<open>
  Two small sites under \<open>http://a.com\<close> on which the crawl is run below. No page can be
  fetched for its content; the anchors of a page are those that \<open>get_links\<close> finds.
  In the first the start page links to \<open>/b\<close>. In the second the start page links to
  \<open>/a\<close> and \<open>/b\<close>, and \<open>/a\<close> links to \<open>/b\<close>.
\<close>

definition site_one_link :: "unit world" where
  "site_one_link =
     \<lparr>netloc = simple_netloc,
      urljoin = (\<lambda>base href. Some (''http://a.com'' @ href)),
      fetch_page = (\<lambda>url. None),
      fetch_anchors = (\<lambda>url. if url = ''http://a.com/'' then Some [(''/b'', ''B'')] else Some [])\<rparr>"

definition site_shared_link :: "unit world" where
  "site_shared_link =
     \<lparr>netloc = simple_netloc,
      urljoin = (\<lambda>base href. Some (''http://a.com'' @ href)),
      fetch_page = (\<lambda>url. None),
      fetch_anchors =
        (\<lambda>url. if url = ''http://a.com/'' then Some [(''/a'', ''A''), (''/b'', ''B'')]
               else if url = ''http://a.com/a'' then Some [(''/b'', ''B again'')]
               else Some [])\<rparr>"

text \<open>
  The loop of \<open>crawl\<close> terminates: an iteration either visits a new page, which uses up
  one page of the budget, or skips a visited URL, which shortens the queue and leaves the
  visited set as it is. The lemmas before the definition establish that.
\<close>

lemma extract_clean_text_frame:
  "extract_clean_text w c url = (c', t) \<Longrightarrow>
   visited_urls c' = visited_urls c \<and> max_pages c' = max_pages c
   \<and> max_depth c' = max_depth c \<and> queue c' = queue c"
  by (auto simp: extract_clean_text_def Let_def split: option.splits title_tag.splits)

lemma record_link_frame:
  "visited_urls (record_link c url full_url d t) = visited_urls c
   \<and> max_pages (record_link c url full_url d t) = max_pages c
   \<and> max_depth (record_link c url full_url d t) = max_depth c
   \<and> queue (record_link c url full_url d t) = queue c"
  by (simp add: record_link_def Let_def)

lemma links_loop_frame:
  "links_loop w url d anchors c links = (c', links') \<Longrightarrow>
   visited_urls c' = visited_urls c \<and> max_pages c' = max_pages c
   \<and> max_depth c' = max_depth c \<and> queue c' = queue c"
proof (induction w url d anchors c links rule: links_loop.induct)
  case (1 w url current_depth c links)
  then show ?case by simp
next
  case (2 w url current_depth href link_text anchors c links)
  show ?case
  proof (cases "href = [] \<or> startswith href ''javascript:'' \<or> href = ''#''")
    case True
    then show ?thesis using 2 by simp
  next
    case skip: False
    show ?thesis
    proof (cases "urljoin w url href")
      case None
      then show ?thesis using 2(4) skip by simp
    next
      case (Some joined)
      show ?thesis
      proof (cases "is_valid_url (netloc w) (strip_fragment joined) url")
        case None
        then show ?thesis using 2(4) skip Some by simp
      next
        case valid: (Some valid)
        show ?thesis
        proof (cases "valid \<and> strip_fragment joined |\<notin>| visited_urls c")
          case True
          then show ?thesis
            using 2(2) [OF skip Some refl valid True] 2(4) skip Some valid
            by (simp add: record_link_frame Let_def)
        next
          case False
          then show ?thesis
            using 2(3) [OF skip Some refl valid False] 2(4) skip Some valid
            by (auto simp: Let_def)
        qed
      qed
    qed
  qed
qed

lemma get_links_frame:
  "get_links w c url d = (c', links) \<Longrightarrow>
   visited_urls c' = visited_urls c \<and> max_pages c' = max_pages c
   \<and> max_depth c' = max_depth c \<and> queue c' = queue c"
  by (auto simp: get_links_def split: if_splits option.splits dest: links_loop_frame)

lemma enqueue_links_frame:
  "visited_urls (enqueue_links c links d) = visited_urls c
   \<and> max_pages (enqueue_links c links d) = max_pages c
   \<and> max_depth (enqueue_links c links d) = max_depth c"
  by (induction c links d rule: enqueue_links.induct) auto

lemma crawl_step_cases:
  assumes "queue c = (u, d) # rest"
  obtains (skip) "u |\<in>| visited_urls c" "crawl_step w c = c\<lparr>queue := rest\<rparr>"
  | (visit) c3 content c5 links where
      "u |\<notin>| visited_urls c"
      "extract_clean_text w (c\<lparr>queue := rest, visited_urls := finsert u (visited_urls c)\<rparr>) u
         = (c3, content)"
      "get_links w (store_content c3 u content) u d = (c5, links)"
      "crawl_step w c
         = (if int d < max_depth c5 then enqueue_links c5 (prioritize_urls links) d else c5)"
proof (cases "u |\<in>| visited_urls c")
  case True
  then have "crawl_step w c = c\<lparr>queue := rest\<rparr>"
    using assms by (simp add: crawl_step_def)
  then show ?thesis using True skip by blast
next
  case False
  obtain c3 content where e:
    "extract_clean_text w (c\<lparr>queue := rest, visited_urls := finsert u (visited_urls c)\<rparr>) u
       = (c3, content)"
    by (cases "extract_clean_text w
                 (c\<lparr>queue := rest, visited_urls := finsert u (visited_urls c)\<rparr>) u") auto
  obtain c5 links where g: "get_links w (store_content c3 u content) u d = (c5, links)"
    by (cases "get_links w (store_content c3 u content) u d") auto
  have "crawl_step w c
          = (if int d < max_depth c5 then enqueue_links c5 (prioritize_urls links) d else c5)"
    using assms False e g by (simp add: crawl_step_def Let_def)
  then show ?thesis using False e g visit by blast
qed

lemma store_content_frame:
  "visited_urls (store_content c u t) = visited_urls c
   \<and> max_pages (store_content c u t) = max_pages c
   \<and> max_depth (store_content c u t) = max_depth c
   \<and> queue (store_content c u t) = queue c"
  by (simp add: store_content_def)

lemma crawl_step_frame:
  "max_pages (crawl_step w c) = max_pages c \<and> max_depth (crawl_step w c) = max_depth c"
proof (cases "queue c")
  case Nil
  then show ?thesis by (simp add: crawl_step_def)
next
  case (Cons a rest)
  obtain u d where "a = (u, d)" by (cases a) auto
  then have q: "queue c = (u, d) # rest" using Cons by simp
  from q show ?thesis
  proof (cases rule: crawl_step_cases [where w = w])
    case skip
    then show ?thesis by simp
  next
    case (visit c3 content c5 links)
    then show ?thesis
      using extract_clean_text_frame [OF visit(2)] get_links_frame [OF visit(3)]
      by (simp add: enqueue_links_frame store_content_frame)
  qed
qed

lemma crawl_step_visited:
  assumes "queue c = (u, d) # rest"
  shows "visited_urls (crawl_step w c) = finsert u (visited_urls c)
         \<and> (u |\<in>| visited_urls c \<longrightarrow> queue (crawl_step w c) = rest)"
  using assms
proof (cases rule: crawl_step_cases [where w = w])
  case skip
  then show ?thesis by auto
next
  case (visit c3 content c5 links)
  then show ?thesis
    using extract_clean_text_frame [OF visit(2)] get_links_frame [OF visit(3)]
    by (simp add: enqueue_links_frame store_content_frame)
qed

lemma crawl_step_decreases:
  assumes "crawl_continues c"
  shows "((w, crawl_step w c), (w, c)) \<in> crawl_order"
proof -
  obtain u d rest where q: "queue c = (u, d) # rest"
    using assms by (cases "queue c") (auto simp: crawl_continues_def)
  have lt: "int (fcard (visited_urls c)) < max_pages c"
    using assms by (simp add: crawl_continues_def)
  note v = crawl_step_visited [OF q, of w]
  show ?thesis
  proof (cases "u |\<in>| visited_urls c")
    case True
    then have "visited_urls (crawl_step w c) = visited_urls c" using v by auto
    moreover have "queue (crawl_step w c) = rest" using v True by simp
    ultimately show ?thesis using q by (simp add: crawl_order_def crawl_step_frame)
  next
    case False
    then have "fcard (visited_urls (crawl_step w c)) = Suc (fcard (visited_urls c))"
      using v by (simp add: fcard_finsert_disjoint)
    then show ?thesis using lt by (simp add: crawl_order_def crawl_step_frame)
  qed
qed

function crawl_loop :: "'m world \<Rightarrow> 'm crawler \<Rightarrow> 'm crawler" where
  "crawl_loop w c = (if crawl_continues c then crawl_loop w (crawl_step w c) else c)"
  by pat_completeness auto
termination
proof (relation crawl_order)
  show "wf (crawl_order :: (('m world \<times> 'm crawler) \<times> ('m world \<times> 'm crawler)) set)"
    by (simp add: crawl_order_def)
next
  fix w :: "'m world" and c :: "'m crawler"
  assume "crawl_continues c"
  then show "((w, crawl_step w c), w, c) \<in> crawl_order" by (rule crawl_step_decreases)
qed

declare crawl_loop.simps [simp del]

definition crawl :: "'m world \<Rightarrow> 'm crawler \<Rightarrow> string \<Rightarrow> 'm crawler" where
  "crawl w c start_url = crawl_loop w (crawl_init c start_url)"
section \<open>Properties of \<open>split\<close> and \<open>join\<close>\<close>

lemma split_from_proper:
  "\<forall>c\<in>set cur. \<not> isspace c \<Longrightarrow> w \<in> set (split_from cur str) \<Longrightarrow> proper_word w"
proof (induction cur str rule: split_from.induct)
  case (1 cur)
  then show ?case by (cases "cur = []") (simp_all add: proper_word_def)
next
  case (2 cur c cs)
  show ?case
  proof (cases "isspace c")
    case True
    then show ?thesis using 2 by (cases "cur = []") (auto simp: proper_word_def)
  next
    case False
    then show ?thesis using 2 by simp
  qed
qed

lemma split_proper: "w \<in> set (split str) \<Longrightarrow> proper_word w"
  unfolding split_def using split_from_proper [of "[]" w str] by simp

lemma split_from_append:
  "\<forall>c\<in>set w. \<not> isspace c \<Longrightarrow> split_from cur (w @ rest) = split_from (cur @ w) rest"
  by (induction w arbitrary: cur) auto

lemma isspace_space: "isspace CHR '' ''"
  by (simp add: isspace_def)

lemma split_from_join:
  "\<forall>w\<in>set ws. proper_word w \<Longrightarrow> split_from [] (join '' '' ws) = ws"
proof (induction "'' ''" ws rule: join.induct)
  case 1
  then show ?case by simp
next
  case (2 w)
  then show ?case
    using split_from_append [of w "[]" "[]"] by (simp add: proper_word_def)
next
  case (3 w v ws)
  have "split_from [] (w @ '' '' @ join '' '' (v # ws)) = split_from w ('' '' @ join '' '' (v # ws))"
    using 3 split_from_append [of w "[]"] by (simp add: proper_word_def)
  also have "\<dots> = w # split_from [] (join '' '' (v # ws))"
    using 3 by (simp add: isspace_space proper_word_def)
  finally show ?case using 3 by simp
qed

lemma split_join: "\<forall>w\<in>set ws. proper_word w \<Longrightarrow> split (join '' '' ws) = ws"
  by (simp add: split_def split_from_join)

lemma join_append:
  "xs \<noteq> [] \<Longrightarrow> ys \<noteq> [] \<Longrightarrow> join sep (xs @ ys) = join sep xs @ sep @ join sep ys"
  by (induction sep xs rule: join.induct) (auto simp: neq_Nil_conv)

lemma join_concat:
  "\<forall>g\<in>set gs. g \<noteq> [] \<Longrightarrow> join sep (map (join sep) gs) = join sep (concat gs)"
proof (induction gs)
  case Nil
  then show ?case by simp
next
  case (Cons g gs)
  show ?case
  proof (cases gs)
    case Nil
    then show ?thesis by simp
  next
    case (Cons h hs)
    then have ne: "concat gs \<noteq> []" using Cons.prems by auto
    have "join sep (map (join sep) (g # gs)) = join sep g @ sep @ join sep (map (join sep) gs)"
      using Cons by simp
    also have "\<dots> = join sep g @ sep @ join sep (concat gs)"
      using Cons.IH Cons.prems by simp
    also have "\<dots> = join sep (g @ concat gs)"
      using join_append [of g "concat gs" sep] ne Cons.prems by simp
    finally show ?thesis by simp
  qed
qed

lemma join_nonempty: "ws \<noteq> [] \<Longrightarrow> \<forall>w\<in>set ws. w \<noteq> [] \<Longrightarrow> join sep ws \<noteq> []"
  by (induction sep ws rule: join.induct) auto

section \<open>Properties of the rounding\<close>

lemma bit_length_0: "bit_length 0 = 0"
  by (subst bit_length.simps) simp

lemma bit_length_pos: "0 < n \<Longrightarrow> bit_length n = 1 + bit_length (n div 2)"
  by (subst bit_length.simps) simp

lemma bit_length_less: "n < 2 ^ bit_length n"
proof (induction n rule: bit_length.induct)
  case (1 n)
  show ?case
  proof (cases "n = 0")
    case True
    then show ?thesis by simp
  next
    case False
    then have "n div 2 < 2 ^ bit_length (n div 2)" using 1 by simp
    then have "n < 2 * 2 ^ bit_length (n div 2)" by linarith
    then show ?thesis using False by (simp add: bit_length_pos)
  qed
qed

lemma bit_length_le: "n < 2 ^ k \<Longrightarrow> bit_length n \<le> k"
proof (induction n arbitrary: k rule: bit_length.induct)
  case (1 n)
  show ?case
  proof (cases "n = 0")
    case True
    then show ?thesis by (simp add: bit_length_0)
  next
    case False
    then obtain j where k: "k = Suc j" using 1(2) by (cases k) auto
    then have "n div 2 < 2 ^ j" using 1(2) by simp
    then have "bit_length (n div 2) \<le> j" using 1(1) False by simp
    then show ?thesis using False k by (simp add: bit_length_pos)
  qed
qed

lemma bit_length_double: "0 < n \<Longrightarrow> bit_length (2 * n) = Suc (bit_length n)"
  using bit_length_pos [of "2 * n"] by simp

lemma bit_length_shift: "0 < q \<Longrightarrow> bit_length (q * 2 ^ s) = bit_length q + s"
proof (induction s)
  case 0
  then show ?case by simp
next
  case (Suc s)
  then have "bit_length (2 * (q * 2 ^ s)) = Suc (bit_length (q * 2 ^ s))"
    by (intro bit_length_double) simp
  then show ?case using Suc by (simp add: mult.commute mult.left_commute)
qed

lemma bit_length_pow: "bit_length (2 ^ k) = Suc k"
  using bit_length_shift [of 1 k] bit_length_pos [of 1] by (simp add: bit_length_0)

lemma round_double_dvd:
  assumes "2 ^ (bit_length N - 53) dvd N"
  shows "round_double N 1 = N"
proof -
  have "N mod 2 ^ (bit_length N - 53) = 0" using assms by auto
  then show ?thesis using assms by (simp add: round_double_def Let_def)
qed

lemma round_double_exact:
  assumes "q \<le> 2 ^ 53"
  shows "round_double (q * 2 ^ s) 1 = q * 2 ^ s"
proof (rule round_double_dvd)
  consider "q = 0" | "0 < q" "q < 2 ^ 53" | "q = 2 ^ 53" using assms by fastforce
  then show "2 ^ (bit_length (q * 2 ^ s) - 53) dvd q * 2 ^ s"
  proof cases
    case 1
    then show ?thesis by simp
  next
    case 2
    then have "bit_length q \<le> 53" by (intro bit_length_le)
    then have "bit_length (q * 2 ^ s) - 53 \<le> s" using 2 by (simp add: bit_length_shift)
    then have "(2::nat) ^ (bit_length (q * 2 ^ s) - 53) dvd 2 ^ s" by (rule le_imp_power_dvd)
    then show ?thesis by (rule dvd_mult)
  next
    case 3
    have "q * 2 ^ s = 2 ^ (53 + s)" using 3 by (simp add: power_add)
    moreover have "bit_length (2 ^ (53 + s)) - 53 = Suc s" by (simp add: bit_length_pow)
    moreover have "(2::nat) ^ Suc s dvd 2 ^ (53 + s)" by (rule le_imp_power_dvd) simp
    ultimately show ?thesis by simp
  qed
qed

lemma round_double_form:
  "\<exists>q\<le>2 ^ 53. round_double N D = q * 2 ^ (bit_length (N div D) - 53)"
proof -
  define m where "m = N div D"
  define s where "s = bit_length m - 53"
  define q where "q = N div (D * 2 ^ s)"
  have q: "q = m div 2 ^ s" by (simp add: q_def m_def div_mult2_eq)
  have "m < 2 ^ bit_length m" by (rule bit_length_less)
  also have "(2::nat) ^ bit_length m \<le> 2 ^ (53 + s)"
    by (rule power_increasing) (simp_all add: s_def)
  finally have "m < 2 ^ 53 * 2 ^ s" by (simp add: power_add)
  then have "q < 2 ^ 53" unfolding q by (simp add: less_mult_imp_div_less)
  then have "q \<le> 2 ^ 53" "q + 1 \<le> 2 ^ 53" by simp_all
  then have "\<exists>p\<le>2 ^ 53. (if c then q + 1 else q) * 2 ^ s = p * 2 ^ s" for c
    by (cases c) (simp_all only: if_True if_False, blast+)
  then show ?thesis
    unfolding round_double_def Let_def m_def [symmetric] s_def [symmetric] q_def [symmetric]
    by blast
qed

lemma fadd_zero_round: "fadd 0 (round_double N D) = round_double N D"
proof -
  obtain q where "q \<le> 2 ^ 53" "round_double N D = q * 2 ^ (bit_length (N div D) - 53)"
    using round_double_form by blast
  then show ?thesis unfolding fadd_def using round_double_exact [of q] by simp
qed

lemma fadd_zero_word_tokens: "fadd 0 (word_tokens w) = word_tokens w"
  by (simp add: word_tokens_def fdiv_def fadd_zero_round)

lemma bit_length_numeral:
  "bit_length (numeral k) = 1 + bit_length (numeral k div 2)"
  "bit_length (Suc 0) = 1"
  by (simp_all add: bit_length_pos bit_length_0)

lemmas double_eval =
  round_double_def double_of_int_def fadd_def fmul_def fdiv_def fgt_int_def int_gt_double_def
  d0_75_def d0_7_def word_tokens_def bit_length_numeral bit_length_0 Let_def


lemma bit_length_ge: "0 < n \<Longrightarrow> 2 ^ (bit_length n - 1) \<le> n"
proof (induction n rule: bit_length.induct)
  case (1 n)
  show ?case
  proof (cases "n div 2 = 0")
    case True
    then have "n = 1" using 1(2) by linarith
    then show ?thesis by (simp add: bit_length_numeral)
  next
    case False
    then have pos: "0 < n div 2" by simp
    then have "2 ^ (bit_length (n div 2) - 1) \<le> n div 2" using 1 by simp
    moreover have "bit_length n - 1 = Suc (bit_length (n div 2) - 1)"
      using bit_length_pos [OF "1.prems"] bit_length_pos [OF pos] by simp
    ultimately show ?thesis by simp
  qed
qed

lemma round_double_cancel:
  assumes "0 < D"
  shows "round_double (a * D) D = round_double a 1"
proof -
  have "a * D mod (D * 2 ^ s) = D * (a mod 2 ^ s)" for s
    by (simp add: mult.commute [of a D])
  moreover have "a * D div (D * 2 ^ s) = a div 2 ^ s" for s
    using assms by (simp add: mult.commute [of a D])
  moreover have "D * 2 ^ s < 2 * (D * x) \<longleftrightarrow> 2 ^ s < 2 * x" for s x :: nat
    using assms by (metis mult.left_commute mult_less_cancel1)
  moreover have "2 * (D * x) = D * 2 ^ s \<longleftrightarrow> 2 * x = 2 ^ s" for s x :: nat
    using assms by (metis mult.left_commute mult_cancel1 less_numeral_extra(3))
  ultimately show ?thesis using assms by (simp add: round_double_def Let_def)
qed

lemma round_double_error:
  "2 ^ 53 * round_double P 1 \<le> (2 ^ 53 + 1) * P
   \<and> (2 ^ 53 - 1) * P \<le> 2 ^ 53 * round_double P 1"
proof (cases "bit_length P \<le> 53")
  case True
  then have "round_double P 1 = P" by (simp add: round_double_def)
  then show ?thesis by simp
next
  case False
  define s where "s = bit_length P - 53"
  define u :: nat where "u = 2 ^ s"
  define q where "q = P div u"
  define r where "r = P mod u"
  define R where "R = round_double P 1"
  have P: "P = q * u + r" by (simp add: q_def r_def)
  have "0 < P" using False by (cases "P = 0") (simp_all add: bit_length_0)
  then have "2 ^ (bit_length P - 1) \<le> P" by (rule bit_length_ge)
  moreover have "bit_length P - 1 = 52 + s" using False by (simp add: s_def)
  ultimately have big: "2 ^ 52 * u \<le> P" by (simp add: u_def power_add)
  have R: "R = (if u < 2 * r \<or> (2 * r = u \<and> odd q) then q + 1 else q) * u"
    by (simp add: R_def round_double_def Let_def s_def u_def q_def r_def)
  have "r < u" by (simp add: r_def u_def)
  have near: "2 * R \<le> 2 * P + u \<and> 2 * P \<le> 2 * R + u"
  proof (cases "u < 2 * r \<or> (2 * r = u \<and> odd q)")
    case True
    then have "R = q * u + u" using R by simp
    then show ?thesis using P True \<open>r < u\<close> by auto
  next
    case False
    with R have "R = q * u" by auto
    then show ?thesis using P False by auto
  qed
  have "2 ^ 53 * R \<le> (2 ^ 53 + 1) * P \<and> (2 ^ 53 - 1) * P \<le> 2 ^ 53 * R"
    using near big by simp
  then show ?thesis by (simp add: R_def)
qed

lemma double_of_int_exact: "n \<le> 2 ^ 53 \<Longrightarrow> double_of_int n = n * 2 ^ 52"
  unfolding double_of_int_def by (rule round_double_exact)

lemma fmul_d0_7: "n \<le> 2 ^ 53 \<Longrightarrow> fmul (double_of_int n) d0_7 = round_double (n * d0_7) 1"
proof -
  assume "n \<le> 2 ^ 53"
  then have "fmul (double_of_int n) d0_7 = round_double (n * d0_7 * 2 ^ 52) (2 ^ 52)"
    by (simp add: fmul_def double_of_int_exact ac_simps)
  then show ?thesis using round_double_cancel [of "2 ^ 52" "n * d0_7"] by simp
qed

lemma preferred_above:
  assumes "n \<le> 2 ^ 48" "7 * n < 10 * t"
  shows "int_gt_double t (fmul (double_of_int n) d0_7)"
proof -
  define R where "R = round_double (n * d0_7) 1"
  have "2 ^ 53 * R \<le> (2 ^ 53 + 1) * (n * d0_7)"
    using round_double_error [of "n * d0_7"] by (simp add: R_def)
  then have "9007199254740992 * R \<le> 28395373445112339944606040011571 * n"
    by (simp add: d0_7_def)
  moreover have "n \<le> 281474976710656" using assms(1) by simp
  ultimately have "R < t * 4503599627370496" using assms(2) by linarith
  then have "R < t * 2 ^ 52" by simp
  moreover have "n \<le> 2 ^ 53" using assms(1) by simp
  ultimately show ?thesis by (simp add: int_gt_double_def fmul_d0_7 R_def)
qed

lemma preferred_below:
  assumes "n \<le> 2 ^ 48" "10 * t < 7 * n"
  shows "\<not> int_gt_double t (fmul (double_of_int n) d0_7)"
proof -
  define R where "R = round_double (n * d0_7) 1"
  have "(2 ^ 53 - 1) * (n * d0_7) \<le> 2 ^ 53 * R"
    using round_double_error [of "n * d0_7"] by (simp add: R_def)
  then have "28395373445112333639566561692877 * n \<le> 9007199254740992 * R"
    by (simp add: d0_7_def)
  moreover have "n \<le> 281474976710656" using assms(1) by simp
  ultimately have "t * 4503599627370496 \<le> R" using assms(2) by linarith
  then have "t * 2 ^ 52 \<le> R" by simp
  moreover have "n \<le> 2 ^ 53" using assms(1) by simp
  ultimately show ?thesis by (simp add: int_gt_double_def fmul_d0_7 R_def)
qed

section \<open>Properties of \<open>chunk_text\<close>\<close>

lemma chunk_loop_groups:
  "chunk_loop m ws (map (join '' '') gs) cur len =
     (case chunk_groups m ws gs cur len of
        (gs', cur', len') \<Rightarrow> (map (join '' '') gs', cur', len'))"
proof (induction ws arbitrary: gs cur len)
  case Nil
  then show ?case by simp
next
  case (Cons w ws)
  show ?case
    using Cons [of "gs @ [cur]" "[w]" "word_tokens w"]
      Cons [of gs "cur @ [w]" "fadd len (word_tokens w)"]
    by simp
qed

lemma chunk_text_words: "chunk_text s m = map (join '' '') (chunk_words s m)"
  using chunk_loop_groups [of m "split s" "[]" "[]" 0]
  by (simp add: chunk_text_def chunk_words_def split: prod.splits)

lemma chunk_groups_concat:
  "chunk_groups m ws gs cur len = (gs', cur', len') \<Longrightarrow>
   concat gs' @ cur' = concat gs @ cur @ ws"
  by (induction ws arbitrary: gs cur len) (auto split: if_splits)

lemma chunk_groups_nonempty:
  "chunk_groups m ws gs cur len = (gs', cur', len') \<Longrightarrow> [] \<notin> set gs \<Longrightarrow> [] \<notin> set gs'"
  by (induction ws arbitrary: gs cur len) (auto split: if_splits)

lemma token_sum_snoc: "token_sum (g @ [w]) = fadd (token_sum g) (word_tokens w)"
  by (simp add: token_sum_def)

lemma token_sum_single: "token_sum [w] = word_tokens w"
  by (simp add: token_sum_def fadd_zero_word_tokens)

lemma chunk_groups_limit:
  "chunk_groups m ws gs cur len = (gs', cur', len') \<Longrightarrow>
   \<forall>g\<in>set gs. within_limit m g \<Longrightarrow>
   len = token_sum cur \<Longrightarrow> cur = [] \<or> within_limit m cur \<Longrightarrow>
   (\<forall>g\<in>set gs'. within_limit m g) \<and> (cur' = [] \<or> within_limit m cur')"
proof (induction ws arbitrary: gs cur len)
  case Nil
  then show ?case by simp
next
  case (Cons w ws)
  show ?case
  proof (cases "fgt_int (fadd len (word_tokens w)) m \<and> cur \<noteq> []")
    case True
    then have run: "chunk_groups m ws (gs @ [cur]) [w] (word_tokens w) = (gs', cur', len')"
      using Cons.prems(1) by simp
    have "\<forall>g\<in>set (gs @ [cur]). within_limit m g"
      using Cons.prems(2,4) True by auto
    moreover have "word_tokens w = token_sum [w]" by (simp add: token_sum_single)
    moreover have "within_limit m [w]" by (simp add: within_limit_def)
    ultimately show ?thesis using Cons.IH [OF run] by blast
  next
    case False
    then have run: "chunk_groups m ws gs (cur @ [w]) (fadd len (word_tokens w)) = (gs', cur', len')"
      using Cons.prems(1) by auto
    have sum: "fadd len (word_tokens w) = token_sum (cur @ [w])"
      using Cons.prems(3) by (simp add: token_sum_snoc)
    have "within_limit m (cur @ [w])"
    proof (cases "cur = []")
      case True
      then show ?thesis by (simp add: within_limit_def)
    next
      case nonempty: False
      then have "\<not> fgt_int (fadd len (word_tokens w)) m" using False by simp
      then show ?thesis using sum by (simp add: within_limit_def)
    qed
    then show ?thesis using Cons.IH [OF run Cons.prems(2) sum] by blast
  qed
qed

lemma chunk_words_concat: "concat (chunk_words s m) = split s"
proof -
  obtain gs cur len where run: "chunk_groups m (split s) [] [] 0 = (gs, cur, len)"
    by (cases "chunk_groups m (split s) [] [] 0") auto
  then have "concat gs @ cur = split s" using chunk_groups_concat [OF run] by simp
  then show ?thesis using run by (auto simp: chunk_words_def)
qed

lemma chunk_words_nonempty: "[] \<notin> set (chunk_words s m)"
proof -
  obtain gs cur len where run: "chunk_groups m (split s) [] [] 0 = (gs, cur, len)"
    by (cases "chunk_groups m (split s) [] [] 0") auto
  then have "[] \<notin> set gs" using chunk_groups_nonempty [OF run] by simp
  then show ?thesis using run by (auto simp: chunk_words_def)
qed

lemma chunk_words_limit: "g \<in> set (chunk_words s m) \<Longrightarrow> within_limit m g"
proof -
  assume g: "g \<in> set (chunk_words s m)"
  obtain gs cur len where run: "chunk_groups m (split s) [] [] 0 = (gs, cur, len)"
    by (cases "chunk_groups m (split s) [] [] 0") auto
  have "(\<forall>g\<in>set gs. within_limit m g) \<and> (cur = [] \<or> within_limit m cur)"
    using chunk_groups_limit [OF run] by (simp add: token_sum_def)
  then show ?thesis using run g by (auto simp: chunk_words_def split: if_splits)
qed

lemma chunk_words_proper: "g \<in> set (chunk_words s m) \<Longrightarrow> w \<in> set g \<Longrightarrow> proper_word w"
proof -
  assume "g \<in> set (chunk_words s m)" "w \<in> set g"
  then have "w \<in> set (concat (chunk_words s m))" by auto
  then show ?thesis by (simp add: chunk_words_concat split_proper)
qed

lemma split_chunk: "g \<in> set (chunk_words s m) \<Longrightarrow> split (join '' '' g) = g"
  using chunk_words_proper by (intro split_join) blast

lemma map_split_chunk_text: "map split (chunk_text s m) = chunk_words s m"
  by (simp add: chunk_text_words map_idI split_chunk)

lemma split_empty_iff: "split_from cur s = [] \<longleftrightarrow> cur = [] \<and> (\<forall>c\<in>set s. isspace c)"
  by (induction cur s rule: split_from.induct) simp_all

lemmas chunk_eval = chunk_text_def split_def isspace_def token_sum_def double_eval

text \<open>
  Claim C7. Joining the chunks of \<open>chunk_text\<close> with single spaces and splitting the result
  on whitespace gives back the words of the input; the words of the chunks, concatenated in
  order, are the words of the input, so that no word is split across two chunks; and no
  chunk is empty.
\<close>

theorem chunk_text_round_trip:
  "split (join '' '' (chunk_text s m)) = split s
   \<and> concat (map split (chunk_text s m)) = split s
   \<and> (\<forall>c\<in>set (chunk_text s m). c \<noteq> [])"
proof (intro conjI)
  have ne: "\<forall>g\<in>set (chunk_words s m). g \<noteq> []"
    using chunk_words_nonempty [of s m] by metis
  then have "join '' '' (chunk_text s m) = join '' '' (concat (chunk_words s m))"
    by (simp add: chunk_text_words join_concat)
  then show "split (join '' '' (chunk_text s m)) = split s"
    by (simp add: chunk_words_concat split_join split_proper)
  show "concat (map split (chunk_text s m)) = split s"
    by (simp add: map_split_chunk_text chunk_words_concat)
  show "\<forall>c\<in>set (chunk_text s m). c \<noteq> []"
  proof
    fix c assume "c \<in> set (chunk_text s m)"
    then obtain g where g: "g \<in> set (chunk_words s m)" "c = join '' '' g"
      by (auto simp: chunk_text_words)
    then have "g \<noteq> []" using ne by blast
    moreover have "\<forall>w\<in>set g. w \<noteq> []"
      using chunk_words_proper [OF g(1)] by (auto simp: proper_word_def)
    ultimately show "c \<noteq> []" using g(2) by (simp add: join_nonempty)
  qed
qed

theorem chunk_text_round_trip_witness:
  "chunk_text ''ab  c d efg h'' 4 = [''ab c'', ''d'', ''efg'', ''h'']
   \<and> split (join '' '' (chunk_text ''ab  c d efg h'' 4)) = split ''ab  c d efg h''
   \<and> concat (map split (chunk_text ''ab  c d efg h'' 4)) = [''ab'', ''c'', ''d'', ''efg'', ''h'']
   \<and> [] \<notin> set (chunk_text ''ab  c d efg h'' 4)"
  using chunk_text_round_trip [of "''ab  c d efg h''" 4]
  by (simp add: chunk_eval)

text \<open>
  Claim C8, as amended. \<open>chunk_text\<close> produces no chunk exactly when every character of the
  input is whitespace: an input with at least one non-whitespace character gives at least
  one chunk, and a non-empty input of whitespace only gives none.
\<close>

theorem chunk_text_empty_iff:
  "chunk_text s m = [] \<longleftrightarrow> (\<forall>c\<in>set s. isspace c)"
proof -
  have "chunk_text s m = [] \<longleftrightarrow> chunk_words s m = []" by (simp add: chunk_text_words)
  also have "\<dots> \<longleftrightarrow> concat (chunk_words s m) = []"
    using chunk_words_nonempty [of s m] by (cases "chunk_words s m") auto
  also have "\<dots> \<longleftrightarrow> (\<forall>c\<in>set s. isspace c)"
    by (simp add: chunk_words_concat split_def split_empty_iff)
  finally show ?thesis .
qed

theorem chunk_text_empty_iff_witness:
  "chunk_text ''a b'' 6000 \<noteq> [] \<and> \<not> (\<forall>c\<in>set ''a b''. isspace c)"
  using chunk_text_empty_iff [of "''a b''" 6000]
  by (simp add: isspace_def)

text \<open>
  Claim C8 as stated fails: the input of one space is a non-empty string with no chunk.
\<close>

theorem chunk_text_nonempty_counterexample:
  "'' '' \<noteq> [] \<and> length (chunk_text '' '' 6000) = 0"
  by (simp add: chunk_eval)

text \<open>
  Claim C10. Every chunk of \<open>chunk_text\<close> is a single word, or the token counts of its words
  (\<open>len(word) / 0.75\<close>, added in order as the loop does) sum to at most \<open>max_tokens\<close>.
\<close>

theorem chunk_text_token_limit:
  "\<forall>c\<in>set (chunk_text s m).
     length (split c) = 1 \<or> \<not> fgt_int (token_sum (split c)) m"
proof
  fix c assume "c \<in> set (chunk_text s m)"
  then obtain g where g: "g \<in> set (chunk_words s m)" "c = join '' '' g"
    by (auto simp: chunk_text_words)
  then have "split c = g" by (simp add: split_chunk)
  then show "length (split c) = 1 \<or> \<not> fgt_int (token_sum (split c)) m"
    using chunk_words_limit [OF g(1)] by (simp add: within_limit_def)
qed

theorem chunk_text_token_limit_witness:
  "chunk_text ''ab c defgh i'' 4 = [''ab c'', ''defgh'', ''i'']
   \<and> \<not> fgt_int (token_sum (split ''ab c'')) 4
   \<and> length (split ''defgh'') = 1 \<and> fgt_int (token_sum (split ''defgh'')) 4
   \<and> length (split ''i'') = 1"
  using chunk_text_token_limit [of "''ab c defgh i''" 4]
  by (simp add: chunk_eval)

section \<open>Properties of the URL policy\<close>

lemma blocked_extension_never_valid:
  "ext \<in> set skip_extensions \<Longrightarrow> endswith (lower url) ext \<Longrightarrow>
   is_valid_url parse url base_url \<noteq> Some True"
  by (auto simp: is_valid_url_def list_ex_iff split: option.splits)

text \<open>
  Claim C4. The test is made on the whole lowercased URL, not on its path: the path of
  \<open>http://a.com/x.pdf?v=1\<close> ends with \<open>.pdf\<close>, the URL does not, and the URL is accepted as
  a page of \<open>http://a.com/\<close>. Without the query string it is rejected.
\<close>

theorem is_valid_url_query_string:
  "is_valid_url simple_netloc ''http://a.com/x.pdf?v=1'' ''http://a.com/'' = Some True
   \<and> is_valid_url simple_netloc ''http://a.com/x.PDF'' ''http://a.com/'' = Some False"
  by (simp add: is_valid_url_def simple_netloc_def strip_scheme_def is_ascii_alpha_def
      is_scheme_char_def skip_extensions_def skip_patterns_def endswith_def startswith_def
      lower_def lower_char_def char_of_def bit_Suc_0_iff Let_def)

section \<open>Properties of the structure extractor\<close>

text \<open>
  Claim C2. \<open>extract_headings\<close> lists the headings level by level: on a region whose
  \<open>h2\<close> heading comes before its \<open>h1\<close> heading, the \<open>h1\<close> heading is listed first, while
  the document order has the \<open>h2\<close> heading first.
\<close>

theorem extract_headings_by_level:
  "extract_headings
     (Element ''div'' []
        [Element ''h2'' [(''id'', ''setup'')] [Text ''Setup''], Element ''h1'' [] [Text ''Guide'']])
   = [\<lparr>heading_level = 1, heading_text = ''Guide'', heading_id = []\<rparr>,
      \<lparr>heading_level = 2, heading_text = ''Setup'', heading_id = ''setup''\<rparr>]
   \<and> headings_in_document_order
     (Element ''div'' []
        [Element ''h2'' [(''id'', ''setup'')] [Text ''Setup''], Element ''h1'' [] [Text ''Guide'']])
   = [\<lparr>heading_level = 2, heading_text = ''Setup'', heading_id = ''setup''\<rparr>,
      \<lparr>heading_level = 1, heading_text = ''Guide'', heading_id = []\<rparr>]"
  by (simp add: extract_headings_def headings_in_document_order_def find_all_def
      make_heading_def heading_tag_def is_heading_of_def strip_def isspace_def upt_rec)

section \<open>Properties of the choice between the two extracted texts\<close>

text \<open>
  Claim C3, as amended. When the alternate extractor yields text, that text is the page
  content whenever its length is above 70% of the length of the structured render, and the
  structured render is the content whenever the alternate text's length is below 70% of
  the render's length (for renders of up to \<open>2^48\<close> characters; at exactly 70% the
  rounding of the double product decides).
\<close>

theorem choose_text_threshold:
  assumes "length enhanced_text \<le> 2 ^ 48" and "traf_text \<noteq> []"
  shows "(7 * length enhanced_text < 10 * length traf_text
            \<longrightarrow> choose_text enhanced_text (Some traf_text) = traf_text)
         \<and> (10 * length traf_text < 7 * length enhanced_text
            \<longrightarrow> choose_text enhanced_text (Some traf_text) = enhanced_text)"
  using assms preferred_above [of "length enhanced_text" "length traf_text"]
    preferred_below [of "length enhanced_text" "length traf_text"]
  by (simp add: choose_text_def trafilatura_preferred_def)

theorem choose_text_threshold_witness:
  "length ''aaaaaaaaaa'' \<le> (2::nat) ^ 48 \<and> ''bbbbbbbb'' \<noteq> []
   \<and> 7 * length ''aaaaaaaaaa'' < 10 * length ''bbbbbbbb''
   \<and> choose_text ''aaaaaaaaaa'' (Some ''bbbbbbbb'') = ''bbbbbbbb''"
  using choose_text_threshold [of "''aaaaaaaaaa''" "''bbbbbbbb''"]
  by simp

text \<open>
  Claim C3 as stated fails: with a structured render of 10 characters and an alternate text
  of 8, both extractors yield text and the render is not shorter than 70% of the alternate
  text, yet the alternate text is the content.
\<close>

theorem choose_text_counterexample:
  "''aaaaaaaaaa'' \<noteq> [] \<and> ''bbbbbbbb'' \<noteq> []
   \<and> \<not> 10 * length ''aaaaaaaaaa'' < 7 * length ''bbbbbbbb''
   \<and> choose_text ''aaaaaaaaaa'' (Some ''bbbbbbbb'') = ''bbbbbbbb''"
  by (simp add: choose_text_def trafilatura_preferred_def double_eval)

section \<open>Properties of the response handling\<close>

lemma find_char_eq:
  "find_char s c = (if c \<in> set s then int (length (takeWhile (\<lambda>x. x \<noteq> c) s)) else -1)"
  by (induction s) (auto simp: Let_def)

lemma rfind_char_eq:
  "rfind_char s c =
     (if c \<in> set s then int (length s) - 1 - int (length (takeWhile (\<lambda>x. x \<noteq> c) (rev s)))
      else -1)"
  by (simp add: rfind_char_def find_char_eq Let_def)

lemma takeWhile_neq_less:
  "b \<in> set xs \<Longrightarrow> length (takeWhile (\<lambda>x. x \<noteq> b) xs) < length xs"
  by (induction xs) auto

lemma bracket_test:
  "(0 \<le> find_char s CHR ''{'' \<and> find_char s CHR ''{'' < rfind_char s CHR ''}'' + 1)
   \<longleftrightarrow> has_bracket_pair s"
proof -
  define tw where "tw = takeWhile (\<lambda>c. c \<noteq> CHR ''{'') s"
  define dw where "dw = dropWhile (\<lambda>c. c \<noteq> CHR ''{'') s"
  have s: "s = tw @ dw" by (simp add: tw_def dw_def)
  have len: "length s = length tw + length dw" by (subst s) simp
  have revs: "rev s = rev dw @ rev tw" by (subst s) simp
  show ?thesis
  proof (cases "CHR ''}'' \<in> set dw")
    case True
    then have "dw \<noteq> []" by auto
    then have "\<not> (\<forall>x\<in>set s. x \<noteq> CHR ''{'')"
      unfolding dw_def by (simp only: dropWhile_eq_Nil_conv not_False_eq_True)
    then have a: "CHR ''{'' \<in> set s" by blast
    have "set dw \<subseteq> set s" by (subst s) simp
    then have b: "CHR ''}'' \<in> set s" using True by blast
    have "takeWhile (\<lambda>x. x \<noteq> CHR ''}'') (rev s) = takeWhile (\<lambda>x. x \<noteq> CHR ''}'') (rev dw)"
      unfolding revs by (rule takeWhile_append1 [of "CHR ''}''"]) (use True in auto)
    moreover have "length (takeWhile (\<lambda>x. x \<noteq> CHR ''}'') (rev dw)) < length (rev dw)"
      by (rule takeWhile_neq_less) (use True in simp)
    ultimately have "length (takeWhile (\<lambda>x. x \<noteq> CHR ''}'') (rev s)) < length dw" by simp
    then show ?thesis
      using a b True len by (simp add: find_char_eq rfind_char_eq has_bracket_pair_def
          tw_def [symmetric] dw_def [symmetric])
  next
    case False
    have "takeWhile (\<lambda>x. x \<noteq> CHR ''}'') (rev s)
               = rev dw @ takeWhile (\<lambda>x. x \<noteq> CHR ''}'') (rev tw)"
      unfolding revs by (rule takeWhile_append2) (use False in auto)
    then have "length dw \<le> length (takeWhile (\<lambda>x. x \<noteq> CHR ''}'') (rev s))" by simp
    then show ?thesis
      using False len by (simp add: find_char_eq rfind_char_eq has_bracket_pair_def
          tw_def [symmetric] dw_def [symmetric])
  qed
qed

lemma dropWhile_dropWhile:
  "(\<And>x. P x \<Longrightarrow> Q x) \<Longrightarrow> dropWhile Q (dropWhile P s) = dropWhile Q s"
  by (induction s) auto

lemma isspace_not_brace: "isspace c \<Longrightarrow> c \<noteq> CHR ''{'' \<and> c \<noteq> CHR ''}''"
  by (auto simp: isspace_def)

lemma has_bracket_pair_lstrip: "has_bracket_pair (dropWhile isspace s) = has_bracket_pair s"
  unfolding has_bracket_pair_def
  using dropWhile_dropWhile [of isspace "\<lambda>c. c \<noteq> CHR ''{''" s] isspace_not_brace by auto

lemma has_bracket_pair_append_spaces:
  assumes "\<forall>c\<in>set w. isspace c"
  shows "has_bracket_pair (a @ w) = has_bracket_pair a"
proof (cases "CHR ''{'' \<in> set a")
  case True
  have "dropWhile (\<lambda>c. c \<noteq> CHR ''{'') (a @ w) = dropWhile (\<lambda>c. c \<noteq> CHR ''{'') a @ w"
    by (rule dropWhile_append1 [of "CHR ''{''"]) (use True in auto)
  then show ?thesis using assms isspace_not_brace by (auto simp: has_bracket_pair_def)
next
  case False
  have e1: "dropWhile (\<lambda>c. c \<noteq> CHR ''{'') (a @ w) = dropWhile (\<lambda>c. c \<noteq> CHR ''{'') w"
    by (rule dropWhile_append2) (use False in auto)
  have e2: "CHR ''}'' \<notin> set (dropWhile (\<lambda>c. c \<noteq> CHR ''{'') w)"
  proof
    assume "CHR ''}'' \<in> set (dropWhile (\<lambda>c. c \<noteq> CHR ''{'') w)"
    then have "CHR ''}'' \<in> set w" by (rule set_dropWhileD)
    then show False using assms isspace_not_brace by blast
  qed
  have "\<forall>x\<in>set a. x \<noteq> CHR ''{''" using False by blast
  then have e3: "dropWhile (\<lambda>c. c \<noteq> CHR ''{'') a = []"
    by (simp only: dropWhile_eq_Nil_conv)
  show ?thesis unfolding has_bracket_pair_def e1 e3 using e2 by simp
qed

lemma has_bracket_pair_rstrip:
  "has_bracket_pair (rev (dropWhile isspace (rev s))) = has_bracket_pair s"
proof -
  have "rev (rev s) = rev (takeWhile isspace (rev s) @ dropWhile isspace (rev s))"
    by (simp only: takeWhile_dropWhile_id)
  then have "s = rev (dropWhile isspace (rev s)) @ rev (takeWhile isspace (rev s))"
    by (simp only: rev_append rev_rev_ident)
  moreover have "\<forall>c\<in>set (rev (takeWhile isspace (rev s))). isspace c"
    by (auto dest: set_takeWhileD)
  ultimately show ?thesis
    using has_bracket_pair_append_spaces
      [of "rev (takeWhile isspace (rev s))" "rev (dropWhile isspace (rev s))"]
    by simp
qed

lemma has_bracket_pair_strip: "has_bracket_pair (strip s) = has_bracket_pair s"
  by (simp add: strip_def has_bracket_pair_rstrip has_bracket_pair_lstrip)

text \<open>
  Claim C9. When the completion text holds no \<open>{\<close> followed by a \<open>}\<close>, or when the
  substring from its first \<open>{\<close> through its last \<open>}\<close> does not parse as JSON, the
  single-module extraction returns the placeholder module for the title and does not raise;
  in the loop over the chunks of a module the placeholder takes the place of that chunk's
  result and the chunks before and after it are processed as they would be without it.
\<close>

theorem malformed_response_placeholder:
  assumes "\<not> has_bracket_pair content \<or> loads (json_substring (strip content)) = None"
  shows "extract_module_with_submodules loads module_title (Some (Some content))
           = Some (placeholder_module module_title)
         \<and> module_results loads module_title (before @ [Some (Some content)] @ after)
           = module_results loads module_title before @ [placeholder_module module_title]
             @ module_results loads module_title after"
proof -
  have one: "extract_module_with_submodules loads module_title (Some (Some content))
               = Some (placeholder_module module_title)"
  proof (cases "has_bracket_pair content")
    case True
    then have "loads (json_substring (strip content)) = None" using assms by simp
    then show ?thesis
      by (simp add: extract_module_with_submodules_def json_substring_def Let_def)
  next
    case False
    then have "\<not> has_bracket_pair (strip content)" by (simp add: has_bracket_pair_strip)
    then show ?thesis
      using bracket_test [of "strip content"]
      by (auto simp: extract_module_with_submodules_def Let_def)
  qed
  have "module_results loads module_title (xs @ r # ys)
          = module_results loads module_title xs
            @ module_results loads module_title (r # ys)" for xs r ys
    by (induction xs) (auto split: option.splits)
  then show ?thesis using one by simp
qed

theorem malformed_response_placeholder_witness:
  "\<not> has_bracket_pair ''no json here''
   \<and> extract_module_with_submodules (\<lambda>s. if s = ''{}'' then Some (JObject []) else None)
        ''Billing'' (Some (Some ''no json here'')) = Some (placeholder_module ''Billing'')
   \<and> module_results (\<lambda>s. if s = ''{}'' then Some (JObject []) else None) ''Billing''
        ([Some (Some ''{}'')] @ [Some (Some ''no json here'')] @ [None, Some (Some '' {} '')])
       = [JObject [], placeholder_module ''Billing'', JObject []]"
  using malformed_response_placeholder
    [of "''no json here''" "\<lambda>s. if s = ''{}'' then Some (JObject []) else None" "''Billing''"
      "[Some (Some ''{}'')]" "[None, Some (Some '' {} '')]"]
  by (simp add: has_bracket_pair_def extract_module_with_submodules_def strip_def isspace_def
      rfind_char_def slice_def Let_def)

section \<open>Properties of the crawl\<close>

lemma crawl_iteration_frame:
  "max_pages (crawl_iteration w c) = max_pages c \<and> max_depth (crawl_iteration w c) = max_depth c"
  by (simp add: crawl_iteration_def crawl_step_frame)

lemma crawl_iterations_frame:
  "max_pages ((crawl_iteration w ^^ n) c) = max_pages c
   \<and> max_depth ((crawl_iteration w ^^ n) c) = max_depth c"
  by (induction n) (simp_all add: crawl_iteration_frame)

lemma crawl_iteration_bound:
  assumes "int (fcard (visited_urls c)) \<le> max_pages c"
  shows "int (fcard (visited_urls (crawl_iteration w c))) \<le> max_pages c"
proof (cases "crawl_continues c")
  case False
  then show ?thesis using assms by (simp add: crawl_iteration_def)
next
  case True
  then obtain u d rest where q: "queue c = (u, d) # rest"
    by (cases "queue c") (auto simp: crawl_continues_def)
  have "fcard (visited_urls (crawl_step w c)) \<le> Suc (fcard (visited_urls c))"
    using crawl_step_visited [OF q, of w] by (simp add: fcard_finsert_if)
  moreover have "int (fcard (visited_urls c)) < max_pages c"
    using True by (simp add: crawl_continues_def)
  ultimately show ?thesis using True by (simp add: crawl_iteration_def)
qed

lemma crawl_iterations_bound:
  assumes "int (fcard (visited_urls c)) \<le> max_pages c"
  shows "int (fcard (visited_urls ((crawl_iteration w ^^ n) c))) \<le> max_pages c"
proof (induction n)
  case 0
  then show ?case using assms by simp
next
  case (Suc n)
  then show ?case
    using crawl_iteration_bound [of "(crawl_iteration w ^^ n) c" w]
    by (simp add: crawl_iterations_frame)
qed

lemma crawl_loop_stops:
  "\<exists>n. \<not> crawl_continues ((crawl_iteration w ^^ n) c)
       \<and> crawl_loop w c = (crawl_iteration w ^^ n) c"
proof (induction w c rule: crawl_loop.induct)
  case (1 w c)
  show ?case
  proof (cases "crawl_continues c")
    case False
    then have "\<not> crawl_continues ((crawl_iteration w ^^ 0) c)
               \<and> crawl_loop w c = (crawl_iteration w ^^ 0) c"
      by (simp add: crawl_loop.simps [of w c])
    then show ?thesis by blast
  next
    case True
    then obtain n where n: "\<not> crawl_continues ((crawl_iteration w ^^ n) (crawl_step w c))"
      "crawl_loop w (crawl_step w c) = (crawl_iteration w ^^ n) (crawl_step w c)"
      using 1 by blast
    have "(crawl_iteration w ^^ Suc n) c = (crawl_iteration w ^^ n) (crawl_step w c)"
      using True by (simp add: funpow_swap1 crawl_iteration_def)
    then have "\<not> crawl_continues ((crawl_iteration w ^^ Suc n) c)
               \<and> crawl_loop w c = (crawl_iteration w ^^ Suc n) c"
      using n True by (simp add: crawl_loop.simps [of w c])
    then show ?thesis by blast
  qed
qed


text \<open>
  Claim C6. For a page budget that is not negative (the configuration has \<open>max_pages\<close> a
  positive integer), the visited set holds at most \<open>max_pages\<close> URLs in every state of the
  loop of \<open>crawl\<close> and in the result; and the loop terminates, whatever the pages link
  to: after some number of iterations the loop condition is false, and the state reached
  then is the result of \<open>crawl\<close>.
\<close>

theorem crawl_visited_bounded_and_terminates:
  assumes "0 \<le> max_pages c"
  shows "(\<forall>n. int (fcard (visited_urls ((crawl_iteration w ^^ n) (crawl_init c start_url))))
              \<le> max_pages c)
         \<and> (\<exists>n. \<not> crawl_continues ((crawl_iteration w ^^ n) (crawl_init c start_url))
                \<and> crawl w c start_url = (crawl_iteration w ^^ n) (crawl_init c start_url))
         \<and> int (fcard (visited_urls (crawl w c start_url))) \<le> max_pages c"
proof -
  have init: "int (fcard (visited_urls (crawl_init c start_url)))
                \<le> max_pages (crawl_init c start_url)"
    using assms by (simp add: crawl_init_def fcard_fempty)
  have mp: "max_pages (crawl_init c start_url) = max_pages c" by (simp add: crawl_init_def)
  have bound: "int (fcard (visited_urls ((crawl_iteration w ^^ n) (crawl_init c start_url))))
                 \<le> max_pages c" for n
    using crawl_iterations_bound [OF init, where w = w and n = n] mp by simp
  obtain k where k: "\<not> crawl_continues ((crawl_iteration w ^^ k) (crawl_init c start_url))"
    "crawl w c start_url = (crawl_iteration w ^^ k) (crawl_init c start_url)"
    using crawl_loop_stops [of w "crawl_init c start_url"] by (auto simp: crawl_def)
  have "int (fcard (visited_urls (crawl w c start_url))) \<le> max_pages c"
    using bound [of k] k(2) by simp
  moreover have "\<exists>n. \<not> crawl_continues ((crawl_iteration w ^^ n) (crawl_init c start_url))
                \<and> crawl w c start_url = (crawl_iteration w ^^ n) (crawl_init c start_url)"
    using k by blast
  ultimately show ?thesis using bound by blast
qed

lemmas url_eval =
  is_valid_url_def simple_netloc_def strip_scheme_def is_ascii_alpha_def is_scheme_char_def
  skip_extensions_def skip_patterns_def endswith_def startswith_def lower_def lower_char_def
  char_of_def bit_Suc_0_iff prioritize_urls_def get_url_priority_def documentation_patterns_def

lemmas crawl_eval =
  crawl_def crawl_init_def new_crawler_def crawl_continues_def crawl_step_def
  extract_clean_text_def store_content_def get_links_def record_link_def strip_def
  crawl_iteration_def Let_def fcard_fempty fcard_finsert_if crawl_loop.simps

theorem crawl_visited_bounded_and_terminates_witness:
  "0 \<le> max_pages (new_crawler 1 1 :: unit crawler)
   \<and> visited_urls (crawl site_one_link (new_crawler 1 1) ''http://a.com/'') = {|''http://a.com/''|}
   \<and> int (fcard (visited_urls (crawl site_one_link (new_crawler 1 1) ''http://a.com/''))) \<le> 1"
  using crawl_visited_bounded_and_terminates
    [of "new_crawler 1 1 :: unit crawler" site_one_link "''http://a.com/''"]
  by (simp add: crawl_eval url_eval site_one_link_def)

lemma mem_linked_urls:
  "x \<in> linked_urls c \<longleftrightarrow> (\<exists>k l. url_hierarchy c k = Some l \<and> x \<in> set l)"
  by (auto simp: linked_urls_def ran_def)

lemma linked_urls_cong: "url_hierarchy c' = url_hierarchy c \<Longrightarrow> linked_urls c' = linked_urls c"
  by (simp add: linked_urls_def)

lemma extract_clean_text_hierarchy:
  "extract_clean_text w c url = (c', t) \<Longrightarrow> url_hierarchy c' = url_hierarchy c"
  by (auto simp: extract_clean_text_def Let_def split: option.splits title_tag.splits)

lemma keys_accounted_mono:
  assumes "keys_accounted s c"
    and "fset (visited_urls c) \<subseteq> fset (visited_urls c')"
    and "linked_urls c \<subseteq> linked_urls c'"
    and "dom (content_map c') \<subseteq> dom (content_map c) \<union> fset (visited_urls c')"
    and "dom (url_metadata c') \<subseteq> dom (url_metadata c) \<union> fset (visited_urls c')"
    and "dom (url_structure c') \<subseteq> dom (url_structure c) \<union> fset (visited_urls c')"
    and "dom (url_titles c')
           \<subseteq> dom (url_titles c) \<union> fset (visited_urls c') \<union> linked_urls c'"
    and "dom (url_depths c')
           \<subseteq> dom (url_depths c) \<union> fset (visited_urls c') \<union> linked_urls c'"
  shows "keys_accounted s c'"
proof -
  have k: "dom (content_map c) \<subseteq> fset (visited_urls c)"
    "dom (url_metadata c) \<subseteq> fset (visited_urls c)"
    "dom (url_structure c) \<subseteq> fset (visited_urls c)"
    "dom (url_titles c) \<subseteq> fset (visited_urls c) \<union> linked_urls c"
    "dom (url_depths c) \<subseteq> insert s (fset (visited_urls c) \<union> linked_urls c)"
    using assms(1) by (simp_all add: keys_accounted_def)
  have "dom (content_map c') \<subseteq> fset (visited_urls c')"
    using k(1) assms(2,4) by blast
  moreover have "dom (url_metadata c') \<subseteq> fset (visited_urls c')"
    using k(2) assms(2,5) by blast
  moreover have "dom (url_structure c') \<subseteq> fset (visited_urls c')"
    using k(3) assms(2,6) by blast
  moreover have "dom (url_titles c') \<subseteq> fset (visited_urls c') \<union> linked_urls c'"
    using k(4) assms(2,3,7) by blast
  moreover have "dom (url_depths c')
                   \<subseteq> insert s (fset (visited_urls c') \<union> linked_urls c')"
    using k(5) assms(2,3,8) by blast
  ultimately show ?thesis by (simp add: keys_accounted_def)
qed

lemma extract_clean_text_keys:
  assumes "extract_clean_text w c url = (c', t)" "url |\<in>| visited_urls c"
    "keys_accounted s c"
  shows "keys_accounted s c'"
proof (rule keys_accounted_mono [OF assms(3)])
  have v: "visited_urls c' = visited_urls c" using extract_clean_text_frame [OF assms(1)] by simp
  show "fset (visited_urls c) \<subseteq> fset (visited_urls c')" by (simp add: v)
  show "linked_urls c \<subseteq> linked_urls c'"
    using extract_clean_text_hierarchy [OF assms(1)] by (simp add: linked_urls_def)
  show "dom (content_map c') \<subseteq> dom (content_map c) \<union> fset (visited_urls c')"
    using assms(1)
    by (auto simp: extract_clean_text_def Let_def split: option.splits title_tag.splits)
  show "dom (url_metadata c') \<subseteq> dom (url_metadata c) \<union> fset (visited_urls c')"
    using assms(1,2)
    by (auto simp: extract_clean_text_def Let_def split: option.splits title_tag.splits if_splits)
  show "dom (url_structure c') \<subseteq> dom (url_structure c) \<union> fset (visited_urls c')"
    using assms(1,2)
    by (auto simp: extract_clean_text_def Let_def split: option.splits title_tag.splits if_splits)
  show "dom (url_titles c')
          \<subseteq> dom (url_titles c) \<union> fset (visited_urls c') \<union> linked_urls c'"
    using assms(1,2)
    by (auto simp: extract_clean_text_def Let_def split: option.splits title_tag.splits if_splits)
  show "dom (url_depths c')
          \<subseteq> dom (url_depths c) \<union> fset (visited_urls c') \<union> linked_urls c'"
    using assms(1)
    by (auto simp: extract_clean_text_def Let_def split: option.splits title_tag.splits)
qed

lemma store_content_keys:
  "url |\<in>| visited_urls c \<Longrightarrow> keys_accounted s c \<Longrightarrow> keys_accounted s (store_content c url t)"
  by (auto simp: store_content_def keys_accounted_def linked_urls_def)

lemma linked_urls_record_link:
  "linked_urls (record_link c url full_url d t) = insert full_url (linked_urls c)"
proof -
  have h: "url_hierarchy (record_link c url full_url d t)
           = (url_hierarchy c)
               (url \<mapsto> (case url_hierarchy c url of None \<Rightarrow> [] | Some l \<Rightarrow> l) @ [full_url])"
    by (simp add: record_link_def Let_def)
  show ?thesis
  proof (intro set_eqI iffI)
    fix x assume "x \<in> linked_urls (record_link c url full_url d t)"
    then obtain k l where kl: "url_hierarchy (record_link c url full_url d t) k = Some l"
      "x \<in> set l" by (auto simp: mem_linked_urls)
    show "x \<in> insert full_url (linked_urls c)"
    proof (cases "k = url")
      case True
      then have "l = (case url_hierarchy c url of None \<Rightarrow> [] | Some l \<Rightarrow> l) @ [full_url]"
        using kl(1) h by simp
      then show ?thesis using kl(2) by (auto simp: mem_linked_urls split: option.splits)
    next
      case False
      then have "url_hierarchy c k = Some l" using kl(1) h by simp
      then show ?thesis using kl(2) by (auto simp: mem_linked_urls)
    qed
  next
    fix x assume x: "x \<in> insert full_url (linked_urls c)"
    show "x \<in> linked_urls (record_link c url full_url d t)"
    proof (cases "x = full_url")
      case True
      have "url_hierarchy (record_link c url full_url d t) url
            = Some ((case url_hierarchy c url of None \<Rightarrow> [] | Some l \<Rightarrow> l) @ [full_url])"
        using h by simp
      then show ?thesis using True unfolding mem_linked_urls by fastforce
    next
      case False
      then obtain k l where kl: "url_hierarchy c k = Some l" "x \<in> set l"
        using x by (auto simp: mem_linked_urls)
      show ?thesis
      proof (cases "k = url")
        case True
        then have "url_hierarchy (record_link c url full_url d t) url = Some (l @ [full_url])"
          using h kl(1) by simp
        then show ?thesis using kl(2) unfolding mem_linked_urls by fastforce
      next
        case False
        then have "url_hierarchy (record_link c url full_url d t) k = Some l"
          using h kl(1) by simp
        then show ?thesis using kl(2) unfolding mem_linked_urls by blast
      qed
    qed
  qed
qed

lemma record_link_keys:
  assumes "keys_accounted s c"
  shows "keys_accounted s (record_link c url full_url d t)"
proof (rule keys_accounted_mono [OF assms])
  show "fset (visited_urls c) \<subseteq> fset (visited_urls (record_link c url full_url d t))"
    by (simp add: record_link_frame)
  show "linked_urls c \<subseteq> linked_urls (record_link c url full_url d t)"
    by (auto simp: linked_urls_record_link)
  show "dom (content_map (record_link c url full_url d t))
          \<subseteq> dom (content_map c) \<union> fset (visited_urls (record_link c url full_url d t))"
    by (simp add: record_link_def Let_def)
  show "dom (url_metadata (record_link c url full_url d t))
          \<subseteq> dom (url_metadata c) \<union> fset (visited_urls (record_link c url full_url d t))"
    by (simp add: record_link_def Let_def)
  show "dom (url_structure (record_link c url full_url d t))
          \<subseteq> dom (url_structure c) \<union> fset (visited_urls (record_link c url full_url d t))"
    by (simp add: record_link_def Let_def)
  have "dom (url_titles (record_link c url full_url d t)) \<subseteq> insert full_url (dom (url_titles c))"
    by (auto simp: record_link_def Let_def split: if_splits)
  then show "dom (url_titles (record_link c url full_url d t))
          \<subseteq> dom (url_titles c) \<union> fset (visited_urls (record_link c url full_url d t))
             \<union> linked_urls (record_link c url full_url d t)"
    unfolding linked_urls_record_link by blast
  have "dom (url_depths (record_link c url full_url d t)) \<subseteq> insert full_url (dom (url_depths c))"
    by (auto simp: record_link_def Let_def split: if_splits)
  then show "dom (url_depths (record_link c url full_url d t))
          \<subseteq> dom (url_depths c) \<union> fset (visited_urls (record_link c url full_url d t))
             \<union> linked_urls (record_link c url full_url d t)"
    unfolding linked_urls_record_link by blast
qed

lemma links_loop_keys:
  "links_loop w url d anchors c links = (c', links') \<Longrightarrow> keys_accounted s c \<Longrightarrow>
   keys_accounted s c'"
proof (induction w url d anchors c links rule: links_loop.induct)
  case (1 w url current_depth c links)
  then show ?case by simp
next
  case (2 w url current_depth href link_text anchors c links)
  show ?case
  proof (cases "href = [] \<or> startswith href ''javascript:'' \<or> href = ''#''")
    case True
    then show ?thesis using 2 by simp
  next
    case skip: False
    show ?thesis
    proof (cases "urljoin w url href")
      case None
      then show ?thesis using 2(4,5) skip by simp
    next
      case (Some joined)
      show ?thesis
      proof (cases "is_valid_url (netloc w) (strip_fragment joined) url")
        case None
        then show ?thesis using 2(4,5) skip Some by simp
      next
        case valid: (Some valid)
        show ?thesis
        proof (cases "valid \<and> strip_fragment joined |\<notin>| visited_urls c")
          case True
          then show ?thesis
            using 2(2) [OF skip Some refl valid True] 2(4,5) skip Some valid
            by (simp add: record_link_keys Let_def)
        next
          case False
          then show ?thesis
            using 2(3) [OF skip Some refl valid False] 2(4,5) skip Some valid
            by (auto simp: Let_def)
        qed
      qed
    qed
  qed
qed

lemma get_links_keys:
  "get_links w c url d = (c', links) \<Longrightarrow> keys_accounted s c \<Longrightarrow> keys_accounted s c'"
  by (auto simp: get_links_def split: if_splits option.splits dest: links_loop_keys)

lemma keys_accounted_queue:
  "keys_accounted s (c\<lparr>queue := q\<rparr>) = keys_accounted s c"
  by (simp add: keys_accounted_def linked_urls_def)

lemma enqueue_links_keys:
  "keys_accounted s c \<Longrightarrow> keys_accounted s (enqueue_links c links d)"
  by (induction c links d rule: enqueue_links.induct) (simp_all add: keys_accounted_queue)

lemma keys_accounted_visit:
  "keys_accounted s c \<Longrightarrow> keys_accounted s (c\<lparr>queue := q, visited_urls := finsert u (visited_urls c)\<rparr>)"
  by (auto simp: keys_accounted_def linked_urls_def)

lemma crawl_step_keys:
  assumes "keys_accounted s c"
  shows "keys_accounted s (crawl_step w c)"
proof (cases "queue c")
  case Nil
  then show ?thesis using assms by (simp add: crawl_step_def)
next
  case (Cons a rest)
  obtain u d where "a = (u, d)" by (cases a) auto
  then have q: "queue c = (u, d) # rest" using Cons by simp
  from q show ?thesis
  proof (cases rule: crawl_step_cases [where w = w])
    case skip
    then show ?thesis using assms by (simp add: keys_accounted_queue)
  next
    case (visit c3 content c5 links)
    have "keys_accounted s (c\<lparr>queue := rest, visited_urls := finsert u (visited_urls c)\<rparr>)"
      using assms by (rule keys_accounted_visit)
    then have k3: "keys_accounted s c3"
      using extract_clean_text_keys [OF visit(2)] by simp
    have "u |\<in>| visited_urls c3" using extract_clean_text_frame [OF visit(2)] by simp
    then have "keys_accounted s (store_content c3 u content)"
      using k3 by (rule store_content_keys)
    then have "keys_accounted s c5" using get_links_keys [OF visit(3)] by simp
    then show ?thesis using visit(4) by (simp add: enqueue_links_keys)
  qed
qed

lemma crawl_loop_keys: "keys_accounted s c \<Longrightarrow> keys_accounted s (crawl_loop w c)"
proof (induction w c rule: crawl_loop.induct)
  case (1 w c)
  show ?case
  proof (cases "crawl_continues c")
    case True
    then show ?thesis using 1 by (simp add: crawl_loop.simps [of w c] crawl_step_keys)
  next
    case False
    then show ?thesis using 1 by (simp add: crawl_loop.simps [of w c])
  qed
qed

text \<open>
  Claim C1, as amended. Once \<open>crawl\<close> returns, every key of the content, metadata and
  structure maps is a visited URL; every key of the titles map is a visited URL or a link
  recorded in the hierarchy; every key of the depths map is the start URL, a visited URL or
  a link recorded in the hierarchy.
\<close>

theorem crawl_result_keys:
  "dom (content_map (crawl w c start_url)) \<subseteq> fset (visited_urls (crawl w c start_url))
   \<and> dom (url_metadata (crawl w c start_url)) \<subseteq> fset (visited_urls (crawl w c start_url))
   \<and> dom (url_structure (crawl w c start_url)) \<subseteq> fset (visited_urls (crawl w c start_url))
   \<and> dom (url_titles (crawl w c start_url))
       \<subseteq> fset (visited_urls (crawl w c start_url)) \<union> linked_urls (crawl w c start_url)
   \<and> dom (url_depths (crawl w c start_url))
       \<subseteq> insert start_url
           (fset (visited_urls (crawl w c start_url)) \<union> linked_urls (crawl w c start_url))"
proof -
  have "keys_accounted start_url (crawl_init c start_url)"
    by (simp add: keys_accounted_def crawl_init_def)
  then have "keys_accounted start_url (crawl w c start_url)"
    unfolding crawl_def by (rule crawl_loop_keys)
  then show ?thesis by (simp add: keys_accounted_def)
qed

text \<open>
  Claim C1 as stated fails for the titles and the depths: link discovery records the depth
  and the anchor text of a link when it finds it. With a budget of one page, the link
  \<open>/b\<close> of the start page has a depth and a title and is never visited.
\<close>

theorem crawl_result_keys_counterexample:
  "''http://a.com/b'' \<in> dom (url_depths (crawl site_one_link (new_crawler 1 1) ''http://a.com/''))
   \<and> ''http://a.com/b'' \<in> dom (url_titles (crawl site_one_link (new_crawler 1 1) ''http://a.com/''))
   \<and> ''http://a.com/b'' |\<notin>| visited_urls (crawl site_one_link (new_crawler 1 1) ''http://a.com/'')"
  by (simp add: crawl_eval url_eval site_one_link_def)

lemma record_link_depth:
  "url_depths (record_link c url full_url current_depth link_text) full_url
     = Some (current_depth + 1)"
  by (simp add: record_link_def Let_def)

text \<open>
  Claim C5. Link discovery assigns \<open>depths[link]\<close> whether the link has a depth or not. On
  the second site with \<open>max_depth = 2\<close>, the start page gives \<open>/b\<close> the depth 1 and
  queues it at depth 1; the page \<open>/a\<close>, visited before it, links to \<open>/b\<close> again and the
  recorded depth becomes 2.
\<close>

theorem crawl_depth_overwritten:
  "url_depths (crawl_iteration site_shared_link (crawl_init (new_crawler 10 2) ''http://a.com/''))
     ''http://a.com/b'' = Some 1
   \<and> queue (crawl_iteration site_shared_link (crawl_init (new_crawler 10 2) ''http://a.com/''))
     = [(''http://a.com/a'', 1), (''http://a.com/b'', 1)]
   \<and> url_depths (crawl site_shared_link (new_crawler 10 2) ''http://a.com/'') ''http://a.com/b''
     = Some 2"
  by (simp add: crawl_eval url_eval site_shared_link_def)

end
